theory Spec2Isabelle
  imports Main "HOL-Library.Word" "HOL-Library.Multiset"
begin

section \<open>Data model\<close>

text \<open>
  The three "Best-Fit" heuristics of \<^verbatim>\<open>best-fit.cpp\<close> work on arrays of
  \<^verbatim>\<open>unsigned int\<close>. Object sizes and bin loads are 32-bit words, so that
  \<^verbatim>\<open>bins[j]+objects[i]\<close> wraps around exactly as the C++ expression does.
  Array indices and counters (\<^verbatim>\<open>i\<close>, \<^verbatim>\<open>j\<close>, \<^verbatim>\<open>num_open_bins\<close>, ...) never
  exceed the number of objects plus one and are natural numbers.

  The globals \<^verbatim>\<open>n\<close>, \<^verbatim>\<open>K\<close> and \<^verbatim>\<open>min_size\<close> are declared in
  \<^verbatim>\<open>bin-packing.h\<close>; they are parameters here: \<^verbatim>\<open>n\<close> is the length of the
  list of objects, \<^verbatim>\<open>K\<close> and \<^verbatim>\<open>min_size\<close> are natural numbers. A comparison
  \<^verbatim>\<open>temp_cap <= K\<close> compares the value of the word with \<^verbatim>\<open>K\<close>.

  An access outside an array is the error value \<open>OutOfBounds\<close>.
\<close>

type_synonym u32 = "32 word"

datatype error = OutOfBounds

section \<open>best\_fit: the array heuristic\<close>

record bf_state =
  bins :: "u32 list"
  positions :: "nat list"
  num_open_bins :: nat
  num_full_bins :: nat

text \<open>
  The inner loop \<^verbatim>\<open>for(j = 0; j < num_open_bins; j++)\<close>: \<open>scan K x j bs (best_bin, best_cap)\<close>
  runs over the loads \<open>bs\<close> of the bins \<open>j, j + 1, ...\<close> and overwrites the best bin so far
  on strict improvement only.
\<close>

fun scan :: "nat \<Rightarrow> u32 \<Rightarrow> nat \<Rightarrow> u32 list \<Rightarrow> nat \<times> u32 \<Rightarrow> nat \<times> u32" where
  "scan K x j [] best = best"
| "scan K x j (b # bs) (best_bin, best_cap) =
     (let temp_cap = b + x
      in scan K x (Suc j) bs
           (if unat temp_cap \<le> K \<and> best_cap < temp_cap then (j, temp_cap)
            else (best_bin, best_cap)))"

text \<open>
  \<^verbatim>\<open>unsigned int limit_capacity = K-min_size;\<close> is computed modulo \<open>2 ^ 32\<close>.
\<close>

definition limit_capacity :: "nat \<Rightarrow> nat \<Rightarrow> u32" where
  "limit_capacity K min_size = of_nat K - of_nat min_size"

text \<open>
  One iteration of the outer loop, for object \<open>x\<close> with index \<open>i\<close>. The array \<^verbatim>\<open>bins\<close>
  has \<open>n\<close> elements: the scan reads \<^verbatim>\<open>bins[0 .. num_open_bins)\<close> and a new bin is
  written to \<^verbatim>\<open>bins[num_open_bins]\<close>. Where one of these indices is not below \<open>n\<close>
  the iteration is \<open>OutOfBounds\<close>. A bin is retired only in the branch that has found a
  best bin: there \<^verbatim>\<open>num_open_bins\<close> is at least 1.
\<close>

definition bf_step :: "nat \<Rightarrow> u32 \<Rightarrow> nat \<Rightarrow> nat \<Rightarrow> u32 \<Rightarrow> bf_state \<Rightarrow> error + bf_state" where
  "bf_step K lim n i x s =
     (if n < num_open_bins s then Inl OutOfBounds
      else
        let (best_bin, best_cap) = scan K x 0 (take (num_open_bins s) (bins s)) (n, 0)
        in if best_bin < n then
             let bs = (bins s)[best_bin := bins s ! best_bin + x];
                 ps = (positions s)[i := best_bin]
             in if lim < bs ! best_bin then
                  Inr (s\<lparr>bins := bs[best_bin := bs ! (num_open_bins s - 1)],
                          positions := ps,
                          num_open_bins := num_open_bins s - 1,
                          num_full_bins := num_full_bins s + 1\<rparr>)
                else Inr (s\<lparr>bins := bs, positions := ps\<rparr>)
           else if num_open_bins s < n then
             Inr (s\<lparr>bins := (bins s)[num_open_bins s := x],
                     positions := (positions s)[i := num_open_bins s],
                     num_open_bins := num_open_bins s + 1\<rparr>)
           else Inl OutOfBounds)"

text \<open>The outer loop \<^verbatim>\<open>for(i = 0; i < n; i++)\<close>, from index \<open>i\<close> on.\<close>

fun bf_loop :: "nat \<Rightarrow> u32 \<Rightarrow> nat \<Rightarrow> nat \<Rightarrow> u32 list \<Rightarrow> bf_state \<Rightarrow> error + bf_state" where
  "bf_loop K lim n i [] s = Inr s"
| "bf_loop K lim n i (x # xs) s =
     (case bf_step K lim n i x s of
        Inl e \<Rightarrow> Inl e
      | Inr s' \<Rightarrow> bf_loop K lim n (Suc i) xs s')"

definition bf_init :: "nat \<Rightarrow> bf_state" where
  "bf_init n = \<lparr>bins = replicate n 0, positions = replicate n 0,
                num_open_bins = 1, num_full_bins = 0\<rparr>"

text \<open>The state after the first \<open>k\<close> objects have been processed.\<close>

definition bf_run :: "nat \<Rightarrow> nat \<Rightarrow> u32 list \<Rightarrow> nat \<Rightarrow> error + bf_state" where
  "bf_run K min_size objects k =
     bf_loop K (limit_capacity K min_size) (length objects) 0 (take k objects)
       (bf_init (length objects))"

text \<open>\<^verbatim>\<open>best_fit\<close> returns the number of bins and leaves the assignment in \<^verbatim>\<open>positions\<close>.\<close>

definition best_fit :: "nat \<Rightarrow> nat \<Rightarrow> u32 list \<Rightarrow> error + (nat \<times> nat list)" where
  "best_fit K min_size objects =
     (case bf_loop K (limit_capacity K min_size) (length objects) 0 objects
             (bf_init (length objects)) of
        Inl e \<Rightarrow> Inl e
      | Inr s \<Rightarrow> Inr (num_open_bins s + num_full_bins s, positions s))"

text \<open>The sum of the sizes of the objects that \<^verbatim>\<open>positions\<close> assigns to bin index \<open>b\<close>.\<close>

definition assigned_load :: "u32 list \<Rightarrow> nat list \<Rightarrow> nat \<Rightarrow> nat" where
  "assigned_load objects ps b =
     (\<Sum>i \<leftarrow> [0 ..< length objects]. if ps ! i = b then unat (objects ! i) else 0)"

section \<open>best\_fit\_lookup: the lookup-table heuristic\<close>

text \<open>
  \<^verbatim>\<open>bin_count\<close> has \<open>K + 1\<close> entries; entry \<open>c\<close> counts the bins with remaining
  capacity \<open>c\<close>. The entries are counters bounded by the number of objects.

  The inner loop \<^verbatim>\<open>while(bin_count[cur_size] == 0) cur_size++;\<close> reads
  \<^verbatim>\<open>bin_count[cur_size]\<close> before every test: a read at an index beyond \<open>K\<close> is
  \<open>OutOfBounds\<close>.
\<close>

function search :: "nat list \<Rightarrow> nat \<Rightarrow> error + nat" where
  "search bin_count cur_size =
     (if length bin_count \<le> cur_size then Inl OutOfBounds
      else if bin_count ! cur_size = 0 then search bin_count (Suc cur_size)
      else Inr cur_size)"
  by pat_completeness auto
termination
  by (relation "measure (\<lambda>(bin_count, cur_size). length bin_count - cur_size)") auto

declare search.simps [simp del]

text \<open>
  One iteration of the loop over the objects: \<^verbatim>\<open>bin_count[cur_size]--\<close>, then
  \<^verbatim>\<open>bin_count[cur_size-req_size]++\<close>.
\<close>

definition lookup_step :: "u32 \<Rightarrow> nat list \<Rightarrow> error + nat list" where
  "lookup_step x bin_count =
     (let req_size = unat x
      in case search bin_count req_size of
           Inl e \<Rightarrow> Inl e
         | Inr cur_size \<Rightarrow>
             let bc = bin_count[cur_size := bin_count ! cur_size - 1]
             in Inr (bc[cur_size - req_size := bc ! (cur_size - req_size) + 1]))"

fun lookup_loop :: "u32 list \<Rightarrow> nat list \<Rightarrow> error + nat list" where
  "lookup_loop [] bin_count = Inr bin_count"
| "lookup_loop (x # xs) bin_count =
     (case lookup_step x bin_count of
        Inl e \<Rightarrow> Inl e
      | Inr bc \<Rightarrow> lookup_loop xs bc)"

text \<open>
  \<^verbatim>\<open>new unsigned int[K+1]; memset(bin_count, 0, (K+1)*sizeof(unsigned int)); bin_count[K] = n;\<close>
  The number of entries \<^verbatim>\<open>K+1\<close> is computed in \<^verbatim>\<open>unsigned int\<close> and wraps around: for
  \<open>K = 2 ^ 32 - 1\<close> the table has no entry, and the write \<^verbatim>\<open>bin_count[K] = n\<close> is
  outside it. (\<^verbatim>\<open>size_t\<close> is taken to be wider than \<^verbatim>\<open>unsigned int\<close>, so the product with
  \<^verbatim>\<open>sizeof(unsigned int)\<close> does not wrap a second time.)
\<close>

definition lookup_init :: "nat \<Rightarrow> nat \<Rightarrow> error + nat list" where
  "lookup_init K n =
     (let bin_count = replicate ((K + 1) mod 2 ^ 32) 0
      in if K < length bin_count then Inr (bin_count[K := n]) else Inl OutOfBounds)"

text \<open>The table after the first \<open>k\<close> objects have been processed.\<close>

definition lookup_run :: "nat \<Rightarrow> u32 list \<Rightarrow> nat \<Rightarrow> error + nat list" where
  "lookup_run K objects k =
     (case lookup_init K (length objects) of
        Inl e \<Rightarrow> Inl e
      | Inr bin_count \<Rightarrow> lookup_loop (take k objects) bin_count)"

text \<open>
  The result is the sum of the entries \<^verbatim>\<open>bin_count[0 .. K)\<close>.
\<close>

definition best_fit_lookup :: "nat \<Rightarrow> u32 list \<Rightarrow> error + nat" where
  "best_fit_lookup K objects =
     (case lookup_init K (length objects) of
        Inl e \<Rightarrow> Inl e
      | Inr bin_count \<Rightarrow>
          (case lookup_loop objects bin_count of
             Inl e \<Rightarrow> Inl e
           | Inr bc \<Rightarrow> Inr (sum_list (take K bc))))"

section \<open>simple\_heap: the heap of bin loads\<close>

text \<open>
  Modelled from the spec: \<^verbatim>\<open>simple-heap.h\<close>, which declares the class
  \<^verbatim>\<open>simple_heap\<close> with its array \<^verbatim>\<open>elements\<close> and its operations \<^verbatim>\<open>push\<close> and
  \<^verbatim>\<open>reheap_down\<close>, is not among the sources. The spec describes it as a fixed-capacity
  array-backed binary max-heap keyed by the bin load, 1-indexed, with the children of node
  \<open>j\<close> at \<open>2j\<close> and \<open>2j + 1\<close>; \<^verbatim>\<open>push\<close> inserts a new leaf and restores the heap order;
  the re-heapification after an in-place update of a node restores the heap order
  downward or upward as needed.
\<close>

record simple_heap =
  elements :: "u32 list"
  heap_size :: nat

text \<open>
  Modelled from the spec: the constructor \<^verbatim>\<open>simple_heap bins(n)\<close> of the missing class.
  An empty heap with room for \<open>n\<close> nodes at the indices \<open>1, ..., n\<close>; index 0 is unused.
\<close>

definition heap_new :: "nat \<Rightarrow> simple_heap" where
  "heap_new n = \<lparr>elements = replicate (n + 1) 0, heap_size = 0\<rparr>"

text \<open>
  Modelled from the spec: restoring the heap order upward, which the missing class does
  after a node's load grew. The node moves up while its parent's load is smaller.
\<close>

function sift_up :: "u32 list \<Rightarrow> nat \<Rightarrow> u32 list" where
  "sift_up e j =
     (if 1 < j \<and> e ! (j div 2) < e ! j
      then sift_up (e[j div 2 := e ! j, j := e ! (j div 2)]) (j div 2)
      else e)"
  by pat_completeness auto
termination
  by (relation "measure (\<lambda>(e, j). j)") auto

declare sift_up.simps [simp del]

text \<open>
  Modelled from the spec: restoring the heap order downward, in a heap of \<open>m\<close> nodes. The
  node is exchanged with its larger child while that child's load is greater.
\<close>

definition larger_child :: "u32 list \<Rightarrow> nat \<Rightarrow> nat \<Rightarrow> nat" where
  "larger_child e m j =
     (let l = (if 2 * j \<le> m \<and> e ! j < e ! (2 * j) then 2 * j else j)
      in if 2 * j + 1 \<le> m \<and> e ! l < e ! (2 * j + 1) then 2 * j + 1 else l)"

function sift_down :: "u32 list \<Rightarrow> nat \<Rightarrow> nat \<Rightarrow> u32 list" where
  "sift_down e m j =
     (let g = larger_child e m j
      in if g \<noteq> j then sift_down (e[j := e ! g, g := e ! j]) m g else e)"
  by pat_completeness auto
termination
proof (relation "measure (\<lambda>(e, m, j). m - j)")
  show "wf (measure (\<lambda>(e, m, j). m - j))"
    by simp
next
  fix e :: "u32 list" and m j g :: nat
  assume "g = larger_child e m j" and "g \<noteq> j"
  then have "m - g < m - j"
    by (auto simp: larger_child_def Let_def split: if_splits)
  then show "((e[j := e ! g, g := e ! j], m, g), (e, m, j)) \<in> measure (\<lambda>(e, m, j). m - j)"
    by simp
qed

declare sift_down.simps [simp del]

text \<open>
  Modelled from the spec: \<^verbatim>\<open>push\<close> of the missing class inserts the value as a new leaf and
  restores the heap order.
\<close>

definition push :: "simple_heap \<Rightarrow> u32 \<Rightarrow> simple_heap" where
  "push h v =
     (let m = heap_size h + 1
      in \<lparr>elements = sift_up ((elements h)[m := v]) m, heap_size = m\<rparr>)"

text \<open>
  Modelled from the spec: \<^verbatim>\<open>reheap_down\<close> of the missing class, called after
  \<^verbatim>\<open>bins.elements[best_bin] += objects[i]\<close>, restores the heap order from node \<open>j\<close>,
  upward and downward as needed.
\<close>

definition reheap_down :: "simple_heap \<Rightarrow> nat \<Rightarrow> simple_heap" where
  "reheap_down h j = h\<lparr>elements := sift_down (sift_up (elements h) j) (heap_size h) j\<rparr>"

text \<open>The max-heap property of the nodes \<open>1 .. m\<close>: no node's load exceeds its parent's.\<close>

definition is_heap :: "u32 list \<Rightarrow> nat \<Rightarrow> bool" where
  "is_heap e m \<longleftrightarrow> (\<forall>j. 2 \<le> j \<and> j \<le> m \<longrightarrow> e ! j \<le> e ! (j div 2))"

section \<open>best\_fit\_heap: the heap heuristic\<close>

record bfh_state =
  heap :: simple_heap
  num_bins :: nat

text \<open>
  The breadth-first search \<^verbatim>\<open>while(!heap_queue.empty())\<close>. The queue is a list with its
  front at the head. A search that does not end has no result (\<open>None\<close>).
\<close>

partial_function (option) bfs ::
  "nat \<Rightarrow> u32 list \<Rightarrow> u32 \<Rightarrow> nat \<Rightarrow> nat list \<Rightarrow> nat \<times> u32 \<Rightarrow> (nat \<times> u32) option" where
  "bfs K e x nb heap_queue best =
     (case heap_queue of
        [] \<Rightarrow> Some best
      | j # q \<Rightarrow>
          (let temp_cap = e ! j + x
           in if unat temp_cap \<le> K then
                bfs K e x nb
                  (q @ (if 2 * j \<le> nb then [2 * j] else [])
                     @ (if 2 * j + 1 \<le> nb then [2 * j + 1] else []))
                  (if snd best < temp_cap then (j, temp_cap) else best)
              else bfs K e x nb q best))"

declare bfs.simps [code]

text \<open>One iteration of the loop over the objects.\<close>

definition bfh_step :: "nat \<Rightarrow> nat \<Rightarrow> u32 \<Rightarrow> bfh_state \<Rightarrow> bfh_state option" where
  "bfh_step K n x s =
     (let e = elements (heap s)
      in case (if num_bins s \<noteq> 0 \<and> unat (e ! 1 + x) \<le> K
               then bfs K e x (num_bins s) [1] (n, 0) else Some (n, 0)) of
           None \<Rightarrow> None
         | Some (best_bin, best_cap) \<Rightarrow>
             if best_bin < n then
               Some (s\<lparr>heap := reheap_down ((heap s)\<lparr>elements := e[best_bin := e ! best_bin + x]\<rparr>)
                                best_bin\<rparr>)
             else Some (s\<lparr>heap := push (heap s) x, num_bins := num_bins s + 1\<rparr>))"

fun bfh_loop :: "nat \<Rightarrow> nat \<Rightarrow> u32 list \<Rightarrow> bfh_state \<Rightarrow> bfh_state option" where
  "bfh_loop K n [] s = Some s"
| "bfh_loop K n (x # xs) s =
     (case bfh_step K n x s of
        None \<Rightarrow> None
      | Some s' \<Rightarrow> bfh_loop K n xs s')"

definition bfh_init :: "nat \<Rightarrow> bfh_state" where
  "bfh_init n = \<lparr>heap = heap_new n, num_bins = 0\<rparr>"

text \<open>The state after the first \<open>k\<close> objects have been processed.\<close>

definition bfh_run :: "nat \<Rightarrow> u32 list \<Rightarrow> nat \<Rightarrow> bfh_state option" where
  "bfh_run K objects k = bfh_loop K (length objects) (take k objects) (bfh_init (length objects))"

definition best_fit_heap :: "nat \<Rightarrow> u32 list \<Rightarrow> nat option" where
  "best_fit_heap K objects =
     (case bfh_loop K (length objects) objects (bfh_init (length objects)) of
        None \<Rightarrow> None
      | Some s \<Rightarrow> Some (num_bins s))"

text \<open>
  The table that \<^verbatim>\<open>best_fit_lookup\<close> starts from when \<open>K + 1\<close> does not wrap around:
  \<open>K + 1\<close> entries, \<open>n\<close> bins of remaining capacity \<open>K\<close>.
\<close>

definition lookup_table :: "nat \<Rightarrow> nat \<Rightarrow> nat list" where
  "lookup_table K n = (replicate (K + 1) 0)[K := n]"

text \<open>
  The invariant of the loop of \<^verbatim>\<open>best_fit_lookup\<close> after \<open>k\<close> of the \<open>n\<close> objects:
  the table has \<open>K + 1\<close> entries that add up to \<open>n\<close>, and at least \<open>n - k\<close> bins are
  still empty.
\<close>

definition lookup_inv :: "nat \<Rightarrow> nat \<Rightarrow> nat \<Rightarrow> nat list \<Rightarrow> bool" where
  "lookup_inv K n k bc \<longleftrightarrow> length bc = K + 1 \<and> sum_list bc = n \<and> n - k \<le> bc ! K"

text \<open>
  \<open>chosen K x bs b\<close>: among the open bins with loads \<open>bs\<close>, bin \<open>b\<close> is the one the scan
  of \<^verbatim>\<open>best_fit\<close> selects for an object \<open>x\<close>: \<^verbatim>\<open>temp_cap\<close> is at most \<open>K\<close> and
  above the initial \<^verbatim>\<open>best_cap = 0\<close>, no bin within capacity has a larger
  \<^verbatim>\<open>temp_cap\<close>, and every earlier bin within capacity has a smaller one.
\<close>

definition chosen :: "nat \<Rightarrow> u32 \<Rightarrow> u32 list \<Rightarrow> nat \<Rightarrow> bool" where
  "chosen K x bs b \<longleftrightarrow>
     b < length bs \<and> unat (bs ! b + x) \<le> K \<and> 0 < bs ! b + x \<and>
     (\<forall>j<length bs. unat (bs ! j + x) \<le> K \<longrightarrow> bs ! j + x \<le> bs ! b + x) \<and>
     (\<forall>j<b. unat (bs ! j + x) \<le> K \<longrightarrow> bs ! j + x < bs ! b + x)"

text \<open>The loads of the open bins \<^verbatim>\<open>bins[0 .. num_open_bins)\<close>, as a multiset.\<close>

definition open_loads :: "bf_state \<Rightarrow> u32 multiset" where
  "open_loads s = mset (take (num_open_bins s) (bins s))"


text \<open>
  The heap property with one node \<open>i\<close> exempted: \<open>heap_except_up\<close> allows node \<open>i\<close> to
  exceed its parent (the state while a node moves up), \<open>heap_except_down\<close> allows the
  children of node \<open>i\<close> to exceed it (the state while a node moves down).
\<close>

definition heap_except_up :: "u32 list \<Rightarrow> nat \<Rightarrow> nat \<Rightarrow> bool" where
  "heap_except_up e m i \<longleftrightarrow>
     (\<forall>j. 2 \<le> j \<and> j \<le> m \<and> j \<noteq> i \<longrightarrow> e ! j \<le> e ! (j div 2)) \<and>
     (\<forall>j. 2 \<le> j \<and> j \<le> m \<and> j div 2 = i \<and> 2 \<le> i \<longrightarrow> e ! j \<le> e ! (i div 2))"

definition heap_except_down :: "u32 list \<Rightarrow> nat \<Rightarrow> nat \<Rightarrow> bool" where
  "heap_except_down e m i \<longleftrightarrow>
     (\<forall>j. 2 \<le> j \<and> j \<le> m \<and> j div 2 \<noteq> i \<longrightarrow> e ! j \<le> e ! (j div 2)) \<and>
     (\<forall>j. 2 \<le> j \<and> j \<le> m \<and> j div 2 = i \<and> 2 \<le> i \<longrightarrow> e ! j \<le> e ! (i div 2))"

text \<open>
  The children that the search pushes for node \<open>j\<close>, and the measure that decreases when a
  node is popped and its children are pushed.
\<close>

definition children :: "nat \<Rightarrow> nat \<Rightarrow> nat list" where
  "children nb j = (if 2 * j \<le> nb then [2 * j] else []) @ (if 2 * j + 1 \<le> nb then [2 * j + 1] else [])"

definition bfs_weight :: "nat \<Rightarrow> nat list \<Rightarrow> nat" where
  "bfs_weight nb q = (\<Sum>j\<leftarrow>q. 2 ^ (Suc nb - j))"

text \<open>
  The invariant of the loop of \<^verbatim>\<open>best_fit_heap\<close> after \<open>k\<close> objects: the heap holds
  \<^verbatim>\<open>num_bins\<close> nodes, at most one per object, in heap order.
\<close>

definition hinv :: "nat \<Rightarrow> nat \<Rightarrow> bfh_state \<Rightarrow> bool" where
  "hinv n k s \<longleftrightarrow>
     length (elements (heap s)) = n + 1 \<and> heap_size (heap s) = num_bins s \<and>
     num_bins s \<le> k \<and> is_heap (elements (heap s)) (num_bins s)"

text \<open>
  The invariant of the loop of \<^verbatim>\<open>best_fit\<close> after the objects \<open>ys\<close>, on instances
  without wrap-around: the arrays have \<open>n\<close> elements, no open bin is loaded beyond \<open>K\<close>,
  there are at most as many bins as objects (one before the first object), the initial
  bin is the only one that is ever empty, and the objects' sizes are accounted for by the
  open bins' loads and at most \<open>K\<close> per retired bin.
\<close>

definition bf_inv :: "nat \<Rightarrow> nat \<Rightarrow> u32 list \<Rightarrow> bf_state \<Rightarrow> bool" where
  "bf_inv K n ys s \<longleftrightarrow>
     length (bins s) = n \<and> length (positions s) = n \<and> num_open_bins s \<le> n \<and>
     (\<forall>l \<in># open_loads s. unat l \<le> K) \<and>
     num_open_bins s + num_full_bins s \<le> max (length ys) 1 \<and>
     (ys = [] \<longrightarrow> open_loads s = {#0#}) \<and>
     (ys \<noteq> [] \<longrightarrow> 0 \<notin># open_loads s) \<and>
     sum_list (map unat ys) \<le> K * num_full_bins s + (\<Sum>l \<in># open_loads s. unat l)"

text \<open>
  The two writes of one iteration of \<^verbatim>\<open>best_fit_lookup\<close> on the table: one bin leaves
  entry \<open>r\<close> and enters entry \<open>r - d\<close>. \<open>capacity_sum\<close> is the remaining capacity summed
  over all bins of the table.
\<close>

definition move_bin :: "nat list \<Rightarrow> nat \<Rightarrow> nat \<Rightarrow> nat list" where
  "move_bin bc r d = (bc[r := bc ! r - 1])[r - d := (bc[r := bc ! r - 1]) ! (r - d) + 1]"

definition capacity_sum :: "nat \<Rightarrow> nat list \<Rightarrow> nat" where
  "capacity_sum K bc = (\<Sum>c\<le>K. bc ! c * c)"

text \<open>
  The invariant of \<^verbatim>\<open>best_fit_lookup\<close> that accounts for the sizes: the remaining
  capacity and the sizes of the objects \<open>ys\<close> processed so far add up to \<open>n * K\<close>.
\<close>

definition lookup_inv2 :: "nat \<Rightarrow> nat \<Rightarrow> u32 list \<Rightarrow> nat list \<Rightarrow> bool" where
  "lookup_inv2 K n ys bc \<longleftrightarrow>
     lookup_inv K n (length ys) bc \<and> capacity_sum K bc + sum_list (map unat ys) = n * K"

text \<open>The loads of the nodes \<open>1, ..., m\<close> of the heap array, as a multiset.\<close>

definition nodes :: "u32 list \<Rightarrow> nat \<Rightarrow> u32 multiset" where
  "nodes e m = mset (take m (drop 1 e))"

text \<open>
  The invariant of \<^verbatim>\<open>best_fit_heap\<close> on instances without wrap-around: heap order, no
  bin loaded beyond \<open>K\<close>, and the loads add up to the sizes of the objects \<open>ys\<close> processed
  so far.
\<close>

definition hinv2 :: "nat \<Rightarrow> nat \<Rightarrow> u32 list \<Rightarrow> bfh_state \<Rightarrow> bool" where
  "hinv2 K n ys s \<longleftrightarrow>
     hinv n (length ys) s \<and>
     (\<forall>l \<in># nodes (elements (heap s)) (num_bins s). unat l \<le> K) \<and>
     (\<Sum>l \<in># nodes (elements (heap s)) (num_bins s). unat l) = sum_list (map unat ys)"

text \<open>
  \<^verbatim>\<open>best_fit\<close> against \<^verbatim>\<open>best_fit_lookup\<close> after the same objects \<open>ys\<close>: for every
  remaining capacity \<open>c\<close> with \<open>min_size \<le> c < K\<close> the table counts the open bins of load
  \<open>K - c\<close>, and the table's bins below \<open>K\<close> are as many as the open and retired bins (not
  counting the initial empty bin before the first object).
\<close>

definition sim :: "nat \<Rightarrow> nat \<Rightarrow> u32 list \<Rightarrow> bf_state \<Rightarrow> nat list \<Rightarrow> bool" where
  "sim K ms ys s bc \<longleftrightarrow>
     (\<forall>c. ms \<le> c \<and> c < K \<longrightarrow> bc ! c = size {#l \<in># open_loads s. unat l = K - c#}) \<and>
     sum_list (take K bc) + (if ys = [] then 1 else 0) = num_open_bins s + num_full_bins s"

text \<open>
  \<^verbatim>\<open>best_fit_heap\<close> against \<^verbatim>\<open>best_fit_lookup\<close>: the table uses at most as many
  bins as the heap holds, and when it uses as many, one of the table's used bins has at
  most the load of the heap's root.
\<close>

definition hsim :: "nat \<Rightarrow> bfh_state \<Rightarrow> nat list \<Rightarrow> bool" where
  "hsim K s bc \<longleftrightarrow>
     sum_list (take K bc) \<le> num_bins s \<and>
     (sum_list (take K bc) = num_bins s \<and> num_bins s \<noteq> 0 \<longrightarrow>
        (\<exists>c. K - unat (elements (heap s) ! 1) \<le> c \<and> c < K \<and> bc ! c \<noteq> 0))"

text \<open>The trivial lower bound on the number of bins: the objects' sizes over \<open>K\<close>, rounded up.\<close>

definition lower_bound :: "nat \<Rightarrow> u32 list \<Rightarrow> nat" where
  "lower_bound K objects = (sum_list (map unat objects) + K - 1) div K"

section \<open>The empty instance\<close>

lemma length_lookup_table [simp]: "length (lookup_table K n) = K + 1"
  by (simp add: lookup_table_def del: replicate.simps)

lemma nth_lookup_table: "c \<le> K \<Longrightarrow> lookup_table K n ! c = (if c = K then n else 0)"
  by (simp add: lookup_table_def nth_list_update del: replicate.simps)

lemma take_lookup_table: "take K (lookup_table K n) = replicate K 0"
  by (rule nth_equalityI) (simp_all add: nth_lookup_table)

lemma lookup_init_eq: "K + 1 < 2 ^ 32 \<Longrightarrow> lookup_init K n = Inr (lookup_table K n)"
  by (simp add: lookup_init_def lookup_table_def del: replicate.simps)

lemma lookup_init_overflow:
  assumes "\<not> K + 1 < 2 ^ 32"
  shows "lookup_init K n = Inl OutOfBounds"
proof -
  have "(K + 1) mod 2 ^ 32 < (2 :: nat) ^ 32"
    by simp
  with assms have "\<not> K < (K + 1) mod 2 ^ 32"
    by arith
  then show ?thesis
    by (simp add: lookup_init_def del: replicate.simps)
qed

lemma best_fit_lookup_eq:
  "K + 1 < 2 ^ 32 \<Longrightarrow>
   best_fit_lookup K objects =
     (case lookup_loop objects (lookup_table K (length objects)) of
        Inl e \<Rightarrow> Inl e
      | Inr bc \<Rightarrow> Inr (sum_list (take K bc)))"
  by (simp add: best_fit_lookup_def lookup_init_eq)

lemma lookup_run_eq:
  "K + 1 < 2 ^ 32 \<Longrightarrow>
   lookup_run K objects k = lookup_loop (take k objects) (lookup_table K (length objects))"
  by (simp add: lookup_run_def lookup_init_eq)

text \<open>
  C5. For the empty instance \<^verbatim>\<open>best_fit_heap\<close> returns 0 bins, and so does
  \<^verbatim>\<open>best_fit_lookup\<close> for every \<open>K\<close> whose table of \<open>K + 1\<close> entries exists, but
  \<^verbatim>\<open>best_fit\<close> returns 1 for every \<open>K\<close>: \<^verbatim>\<open>num_open_bins\<close> starts at 1 and the loop
  is not entered, so the result \<^verbatim>\<open>num_open_bins+num_full_bins\<close> counts a bin that
  holds no object.
\<close>

theorem best_fit_empty_instance:
  "best_fit K min_size [] = Inr (1, []) \<and>
   best_fit_heap K [] = Some 0 \<and>
   best_fit_lookup K [] = (if K + 1 < 2 ^ 32 then Inr 0 else Inl OutOfBounds)"
proof -
  have "best_fit_lookup K [] = Inr 0" if "K + 1 < 2 ^ 32"
    using that by (simp add: best_fit_lookup_eq take_lookup_table)
  moreover have "best_fit_lookup K [] = Inl OutOfBounds" if "\<not> K + 1 < 2 ^ 32"
    using lookup_init_overflow [OF that] by (simp add: best_fit_lookup_def)
  ultimately show ?thesis
    by (simp add: best_fit_def bf_init_def best_fit_heap_def bfh_init_def)
qed

section \<open>The assignment written by best\_fit\<close>

text \<open>
  C3. With \<open>K = 10\<close>, \<open>min_size = 1\<close> and the objects \<open>10, 10\<close> the first object fills bin
  slot 0, which is retired at once; the second object opens a new bin in the same slot 0.
  Both entries of \<^verbatim>\<open>positions\<close> are 0, and the sizes assigned to bin index 0 add up to
  20, twice the capacity.
\<close>

theorem best_fit_positions_slot_reuse:
  "best_fit 10 1 [10, 10] = Inr (2, [0, 0]) \<and> assigned_load [10, 10] [0, 0] 0 = 20"
  by code_simp

section \<open>Objects larger than the capacity\<close>

text \<open>
  C7. With \<open>K = 10\<close> and the single object \<open>11\<close> the array \<^verbatim>\<open>bins\<close> has one element.
  The object does not fit into the initial bin 0, so it is written to
  \<^verbatim>\<open>bins[num_open_bins]\<close>, that is \<^verbatim>\<open>bins[1]\<close>, outside the array.
\<close>

theorem best_fit_oversized_out_of_bounds:
  "best_fit 10 1 [11] = Inl OutOfBounds"
  by code_simp

section \<open>The table of best\_fit\_lookup\<close>

lemma search_Inr:
  "search bc c = Inr r \<Longrightarrow> c \<le> r \<and> r < length bc \<and> bc ! r \<noteq> 0"
proof (induction bc c rule: search.induct)
  case (1 bc c)
  show ?case
  proof (cases "length bc \<le> c")
    case True
    with "1.prems" show ?thesis by (simp add: search.simps [of bc c])
  next
    case False
    show ?thesis
    proof (cases "bc ! c = 0")
      case True
      with False "1.prems" have "search bc (Suc c) = Inr r"
        by (simp add: search.simps [of bc c])
      with "1.IH" False True show ?thesis by fastforce
    next
      case nz: False
      with False "1.prems" show ?thesis by (simp add: search.simps [of bc c])
    qed
  qed
qed

lemma search_finds:
  "c \<le> k \<Longrightarrow> k < length bc \<Longrightarrow> bc ! k \<noteq> 0 \<Longrightarrow> \<exists>r. search bc c = Inr r \<and> r \<le> k"
proof (induction bc c rule: search.induct)
  case (1 bc c)
  show ?case
  proof (cases "bc ! c = 0")
    case True
    with "1.prems" have "c \<noteq> k" by auto
    with "1.prems" have "Suc c \<le> k" by simp
    with "1.IH" "1.prems" True obtain r where "search bc (Suc c) = Inr r" "r \<le> k"
      by fastforce
    with "1.prems" True show ?thesis by (simp add: search.simps [of bc c])
  next
    case False
    with "1.prems" show ?thesis by (simp add: search.simps [of bc c])
  qed
qed

lemma lookup_inv_init: "lookup_inv K n 0 (lookup_table K n)"
proof -
  have "sum_list (lookup_table K n) = n"
    by (simp add: lookup_table_def sum_list_update del: replicate.simps)
  then show ?thesis
    by (simp add: lookup_inv_def nth_lookup_table)
qed

lemma lookup_step_inv:
  assumes inv: "lookup_inv K n k bc" and k: "k < n" and x: "unat x \<le> K"
  shows "\<exists>bc' c. search bc (unat x) = Inr c \<and> unat x \<le> c \<and> c \<le> K \<and>
           lookup_step x bc = Inr bc' \<and> lookup_inv K n (Suc k) bc'"
proof -
  from inv have len: "length bc = K + 1" and sum: "sum_list bc = n" and top: "n - k \<le> bc ! K"
    by (simp_all add: lookup_inv_def)
  from top k have "bc ! K \<noteq> 0" by simp
  with search_finds [of "unat x" K bc] x len obtain c where c: "search bc (unat x) = Inr c" "c \<le> K"
    by auto
  from search_Inr [OF c(1)] have xc: "unat x \<le> c" and nz: "bc ! c \<noteq> 0" by simp_all
  define b1 where "b1 = bc[c := bc ! c - 1]"
  define b2 where "b2 = b1[c - unat x := b1 ! (c - unat x) + 1]"
  have step: "lookup_step x bc = Inr b2"
    by (simp add: lookup_step_def c b1_def b2_def Let_def)
  have l1: "length b1 = K + 1" and l2: "length b2 = K + 1"
    by (simp_all add: b1_def b2_def len)
  have "bc ! c \<le> sum_list bc"
    using c(2) len by (intro member_le_sum_list) auto
  have s1: "sum_list b1 = n - 1" and "1 \<le> n"
    using nz c(2) len sum \<open>bc ! c \<le> sum_list bc\<close> by (simp_all add: b1_def sum_list_update)
  have "b1 ! (c - unat x) \<le> sum_list b1"
    using c(2) l1 by (intro member_le_sum_list) auto
  then have s2: "sum_list b2 = n"
    using c(2) l1 s1 \<open>1 \<le> n\<close> by (simp add: b2_def sum_list_update)
  have "bc ! K - 1 \<le> b1 ! K"
    using len by (cases "c = K") (simp_all add: b1_def)
  moreover have "b1 ! K \<le> b2 ! K"
    using l1 by (cases "c - unat x = K") (simp_all add: b2_def)
  ultimately have "n - Suc k \<le> b2 ! K"
    using top by simp
  with l2 s2 have "lookup_inv K n (Suc k) b2"
    by (simp add: lookup_inv_def)
  with c xc step show ?thesis by blast
qed

lemma lookup_loop_inv:
  assumes "lookup_inv K n k bc" and "k + length xs \<le> n" and "\<forall>x\<in>set xs. unat x \<le> K"
  shows "\<exists>bc'. lookup_loop xs bc = Inr bc' \<and> lookup_inv K n (k + length xs) bc'"
  using assms
proof (induction xs arbitrary: k bc)
  case Nil
  then show ?case by simp
next
  case (Cons x xs)
  from Cons.prems have "k < n" and "unat x \<le> K" by simp_all
  with lookup_step_inv [OF Cons.prems(1)] obtain b where
    b: "lookup_step x bc = Inr b" "lookup_inv K n (Suc k) b"
    by blast
  from Cons.IH [OF b(2)] Cons.prems obtain bc' where
    "lookup_loop xs b = Inr bc'" "lookup_inv K n (Suc k + length xs) bc'"
    by auto
  with b(1) show ?case by simp
qed

lemma lookup_run_inv:
  assumes "\<forall>x\<in>set objects. unat x \<le> K" and "K + 1 < 2 ^ 32" and "k \<le> length objects"
  shows "\<exists>bc. lookup_run K objects k = Inr bc \<and> lookup_inv K (length objects) k bc"
proof -
  have "\<forall>x\<in>set (take k objects). unat x \<le> K"
    using assms(1) by (auto dest: in_set_takeD)
  with lookup_loop_inv [OF lookup_inv_init, of "take k objects" "length objects" K] assms(3)
  show ?thesis
    by (simp add: lookup_run_eq [OF assms(2)] min_absorb2)
qed

text \<open>
  C9, as amended. For every instance whose objects are positive and at most \<open>K\<close>, with
  \<open>K + 1 < 2 ^ 32\<close>, so that the number of entries \<^verbatim>\<open>K+1\<close> does not wrap around, after
  the initialisation (\<open>k = 0\<close>) and after each object (\<open>k = 1, ..., n\<close>) the loop of
  \<^verbatim>\<open>best_fit_lookup\<close> has reached a table of \<open>K + 1\<close> entries whose sum over the
  indices \<open>0, ..., K\<close> is \<open>n\<close>.
\<close>

theorem lookup_histogram_sum:
  assumes "\<forall>x\<in>set objects. 0 < unat x \<and> unat x \<le> K" and "K + 1 < 2 ^ 32"
    and "k \<le> length objects"
  shows "\<exists>bc. lookup_run K objects k = Inr bc \<and> length bc = K + 1 \<and>
            (\<Sum>c \<leftarrow> [0 ..< K + 1]. bc ! c) = length objects"
proof -
  from assms obtain bc where bc: "lookup_run K objects k = Inr bc"
      "lookup_inv K (length objects) k bc"
    using lookup_run_inv [of objects K k] by auto
  then have "length bc = K + 1" "sum_list bc = length objects"
    by (simp_all add: lookup_inv_def)
  moreover from this have "(\<Sum>c \<leftarrow> [0 ..< K + 1]. bc ! c) = sum_list bc"
    by (metis map_nth)
  ultimately show ?thesis using bc(1) by simp
qed

theorem lookup_histogram_sum_witness:
  "\<exists>bc. lookup_run 3 [2, 1, 3] 2 = Inr bc \<and> length bc = 3 + 1 \<and>
     (\<Sum>c \<leftarrow> [0 ..< 3 + 1]. bc ! c) = length [2 :: u32, 1, 3]"
  using lookup_histogram_sum [of "[2, 1, 3]" 3 2] by simp

text \<open>
  The claim as stated fails at the initialisation for \<open>K = 4294967295\<close>: \<^verbatim>\<open>K+1\<close> wraps
  around to 0, the table has no entry to sum over, and \<^verbatim>\<open>bin_count[K] = n\<close> is a write
  outside it, on a valid instance of one object of size 1.
\<close>

theorem lookup_histogram_no_table:
  "lookup_run 4294967295 [1] 0 = Inl OutOfBounds"
  by (simp add: lookup_run_def lookup_init_def)

lemma lookup_loop_append:
  "lookup_loop (xs @ ys) bc =
     (case lookup_loop xs bc of Inl e \<Rightarrow> Inl e | Inr bc' \<Rightarrow> lookup_loop ys bc')"
  by (induction xs arbitrary: bc) (simp_all split: sum.splits)

lemma lookup_run_Suc:
  assumes "k < length objects" and "lookup_run K objects k = Inr bc"
  shows "lookup_run K objects (Suc k) = lookup_step (objects ! k) bc"
  using assms
  by (auto simp: lookup_run_def take_Suc_conv_app_nth lookup_loop_append split: sum.splits)

lemma best_fit_lookup_run:
  "best_fit_lookup K objects =
     (case lookup_run K objects (length objects) of
        Inl e \<Rightarrow> Inl e | Inr bc \<Rightarrow> Inr (sum_list (take K bc)))"
  by (simp add: best_fit_lookup_def lookup_run_def split: sum.splits)

text \<open>
  C10, as amended. For every instance whose objects are positive and at most \<open>K\<close>, with
  \<open>K + 1 < 2 ^ 32\<close>, so that the number of entries \<^verbatim>\<open>K+1\<close> does not wrap around,
  \<^verbatim>\<open>best_fit_lookup\<close> returns a result, and for every object the upward search ends at
  some \<open>cur_size\<close> with \<open>req_size \<le> cur_size \<le> K\<close>: no access to \<^verbatim>\<open>bin_count\<close>
  leaves the indices \<open>0, ..., K\<close> and \<^verbatim>\<open>cur_size-req_size\<close> does not underflow.
\<close>

theorem lookup_search_in_bounds:
  assumes "\<forall>x\<in>set objects. 0 < unat x \<and> unat x \<le> K" and tab: "K + 1 < 2 ^ 32"
  shows "(\<exists>r. best_fit_lookup K objects = Inr r) \<and>
         (\<forall>k<length objects. \<exists>bc c bc'.
            lookup_run K objects k = Inr bc \<and> length bc = K + 1 \<and>
            search bc (unat (objects ! k)) = Inr c \<and>
            unat (objects ! k) \<le> c \<and> c \<le> K \<and>
            lookup_run K objects (Suc k) = Inr bc')"
proof -
  from assms have le: "\<forall>x\<in>set objects. unat x \<le> K" by simp
  have "\<exists>r. best_fit_lookup K objects = Inr r"
    using lookup_run_inv [OF le tab, of "length objects"]
    by (auto simp: best_fit_lookup_run)
  moreover have "\<exists>bc c bc'.
            lookup_run K objects k = Inr bc \<and> length bc = K + 1 \<and>
            search bc (unat (objects ! k)) = Inr c \<and>
            unat (objects ! k) \<le> c \<and> c \<le> K \<and>
            lookup_run K objects (Suc k) = Inr bc'" if k: "k < length objects" for k
  proof -
    from lookup_run_inv [OF le tab, of k] k obtain bc where
      bc: "lookup_run K objects k = Inr bc" "lookup_inv K (length objects) k bc"
      by auto
    from le k have "unat (objects ! k) \<le> K" by simp
    from lookup_step_inv [OF bc(2) k this] obtain bc' c where
      "search bc (unat (objects ! k)) = Inr c" "unat (objects ! k) \<le> c" "c \<le> K"
      "lookup_step (objects ! k) bc = Inr bc'"
      by blast
    moreover from bc(2) have "length bc = K + 1" by (simp add: lookup_inv_def)
    ultimately show ?thesis
      using bc(1) lookup_run_Suc [OF k bc(1)] by auto
  qed
  ultimately show ?thesis by blast
qed

theorem lookup_search_in_bounds_witness:
  "(\<exists>r. best_fit_lookup 3 [2, 1, 3] = Inr r) \<and>
   (\<exists>bc c bc'.
      lookup_run 3 [2, 1, 3] 1 = Inr bc \<and> length bc = 3 + 1 \<and>
      search bc (unat ([2 :: u32, 1, 3] ! 1)) = Inr c \<and>
      unat ([2 :: u32, 1, 3] ! 1) \<le> c \<and> c \<le> 3 \<and>
      lookup_run 3 [2, 1, 3] (Suc 1) = Inr bc')"
proof -
  have valid: "\<forall>x\<in>set [2 :: u32, 1, 3]. 0 < unat x \<and> unat x \<le> 3"
    by simp
  have tab: "(3 :: nat) + 1 < 2 ^ 32"
    by simp
  have k: "1 < length [2 :: u32, 1, 3]"
    by simp
  from lookup_search_in_bounds [OF valid tab] k show ?thesis
    by blast
qed

text \<open>
  The claim as stated fails for \<open>K = 4294967295\<close> and one object of size 1, before the
  search is reached: \<^verbatim>\<open>K+1\<close> wraps around to 0, the table has no entry, and the write
  \<^verbatim>\<open>bin_count[K] = n\<close> is outside it, so \<^verbatim>\<open>best_fit_lookup\<close> does not return a result.
\<close>

theorem table_size_wraps:
  "lookup_init 4294967295 1 = Inl OutOfBounds \<and>
   best_fit_lookup 4294967295 [1] = Inl OutOfBounds"
  by (simp add: best_fit_lookup_def lookup_init_def)

section \<open>The scan of the open bins in best\_fit\<close>

lemma scan_result:
  "scan K x j bs (bb, bc) = (bb', bc') \<Longrightarrow>
     (bb' = bb \<and> bc' = bc \<and> (\<forall>i<length bs. \<not> (unat (bs ! i + x) \<le> K \<and> bc < bs ! i + x))) \<or>
     (\<exists>i<length bs. bb' = j + i \<and> bc' = bs ! i + x \<and> unat (bs ! i + x) \<le> K \<and> bc < bs ! i + x \<and>
        (\<forall>i'<length bs. unat (bs ! i' + x) \<le> K \<longrightarrow> bs ! i' + x \<le> bs ! i + x) \<and>
        (\<forall>i'<i. unat (bs ! i' + x) \<le> K \<longrightarrow> bs ! i' + x < bs ! i + x))"
proof (induction bs arbitrary: j bb bc)
  case Nil
  then show ?case by simp
next
  case (Cons b bs)
  let ?t = "b + x"
  show ?case
  proof (cases "unat ?t \<le> K \<and> bc < ?t")
    case True
    with Cons.prems have "scan K x (Suc j) bs (j, ?t) = (bb', bc')"
      by (simp add: Let_def)
    from Cons.IH [OF this] show ?thesis
    proof (elim disjE conjE exE)
      assume a: "bb' = j" "bc' = ?t"
        "\<forall>i<length bs. \<not> (unat (bs ! i + x) \<le> K \<and> ?t < bs ! i + x)"
      have "\<forall>i'<length (b # bs). unat ((b # bs) ! i' + x) \<le> K \<longrightarrow> (b # bs) ! i' + x \<le> ?t"
        using a(3) by (auto simp: nth_Cons split: nat.splits)
      with a True have "0 < length (b # bs) \<and> bb' = j + 0 \<and> bc' = (b # bs) ! 0 + x \<and>
          unat ((b # bs) ! 0 + x) \<le> K \<and> bc < (b # bs) ! 0 + x \<and>
          (\<forall>i'<length (b # bs). unat ((b # bs) ! i' + x) \<le> K \<longrightarrow>
               (b # bs) ! i' + x \<le> (b # bs) ! 0 + x) \<and>
          (\<forall>i'<0. unat ((b # bs) ! i' + x) \<le> K \<longrightarrow> (b # bs) ! i' + x < (b # bs) ! 0 + x)"
        by simp
      then show ?thesis by blast
    next
      fix i
      assume a: "i < length bs" "bb' = Suc j + i" "bc' = bs ! i + x" "unat (bs ! i + x) \<le> K"
        "?t < bs ! i + x"
        "\<forall>i'<length bs. unat (bs ! i' + x) \<le> K \<longrightarrow> bs ! i' + x \<le> bs ! i + x"
        "\<forall>i'<i. unat (bs ! i' + x) \<le> K \<longrightarrow> bs ! i' + x < bs ! i + x"
      have 1: "\<forall>i'<length (b # bs). unat ((b # bs) ! i' + x) \<le> K \<longrightarrow>
               (b # bs) ! i' + x \<le> (b # bs) ! Suc i + x"
        using a(5,6) by (auto simp: nth_Cons split: nat.splits)
      have 2: "\<forall>i'<Suc i. unat ((b # bs) ! i' + x) \<le> K \<longrightarrow>
               (b # bs) ! i' + x < (b # bs) ! Suc i + x"
        using a(5,7) by (auto simp: nth_Cons split: nat.splits)
      from a True have "Suc i < length (b # bs) \<and> bb' = j + Suc i \<and> bc' = (b # bs) ! Suc i + x \<and>
          unat ((b # bs) ! Suc i + x) \<le> K \<and> bc < (b # bs) ! Suc i + x"
        by auto
      with 1 2 show ?thesis by blast
    qed
  next
    case False
    with Cons.prems have "scan K x (Suc j) bs (bb, bc) = (bb', bc')"
      by (auto simp: Let_def)
    from Cons.IH [OF this] show ?thesis
    proof (elim disjE conjE exE)
      assume a: "bb' = bb" "bc' = bc"
        "\<forall>i<length bs. \<not> (unat (bs ! i + x) \<le> K \<and> bc < bs ! i + x)"
      have "\<forall>i<length (b # bs). \<not> (unat ((b # bs) ! i + x) \<le> K \<and> bc < (b # bs) ! i + x)"
        using a(3) False by (auto simp: nth_Cons split: nat.splits)
      with a show ?thesis by blast
    next
      fix i
      assume a: "i < length bs" "bb' = Suc j + i" "bc' = bs ! i + x" "unat (bs ! i + x) \<le> K"
        "bc < bs ! i + x"
        "\<forall>i'<length bs. unat (bs ! i' + x) \<le> K \<longrightarrow> bs ! i' + x \<le> bs ! i + x"
        "\<forall>i'<i. unat (bs ! i' + x) \<le> K \<longrightarrow> bs ! i' + x < bs ! i + x"
      from False a(5) have b: "unat ?t \<le> K \<longrightarrow> ?t < bs ! i + x"
        by auto
      have 1: "\<forall>i'<length (b # bs). unat ((b # bs) ! i' + x) \<le> K \<longrightarrow>
               (b # bs) ! i' + x \<le> (b # bs) ! Suc i + x"
        using b a(6) by (auto simp: nth_Cons split: nat.splits)
      have 2: "\<forall>i'<Suc i. unat ((b # bs) ! i' + x) \<le> K \<longrightarrow>
               (b # bs) ! i' + x < (b # bs) ! Suc i + x"
        using b a(7) by (auto simp: nth_Cons split: nat.splits)
      from a have "Suc i < length (b # bs) \<and> bb' = j + Suc i \<and> bc' = (b # bs) ! Suc i + x \<and>
          unat ((b # bs) ! Suc i + x) \<le> K \<and> bc < (b # bs) ! Suc i + x"
        by auto
      with 1 2 show ?thesis by blast
    qed
  qed
qed

lemma scan_start:
  assumes "scan K x 0 bs (n, 0) = (bb, bc)" and "length bs \<le> n"
  shows "(bb = n \<and> (\<forall>j<length bs. \<not> (unat (bs ! j + x) \<le> K \<and> 0 < bs ! j + x))) \<or>
         (bb < n \<and> bc = bs ! bb + x \<and> chosen K x bs bb)"
  using scan_result [OF assms(1)] assms(2) unfolding chosen_def by fastforce

section \<open>One iteration of best\_fit\<close>

lemma bf_stepE:
  assumes step: "bf_step K lim n i x s = Inr s'" and len: "length (bins s) = n"
  obtains
    (keep) b where "chosen K x (take (num_open_bins s) (bins s)) b"
      "b < num_open_bins s" "num_open_bins s \<le> n"
      "\<not> lim < bins s ! b + x"
      "s' = s\<lparr>bins := (bins s)[b := bins s ! b + x], positions := (positions s)[i := b]\<rparr>"
  | (retire) b where "chosen K x (take (num_open_bins s) (bins s)) b"
      "b < num_open_bins s" "num_open_bins s \<le> n"
      "lim < bins s ! b + x"
      "s' = s\<lparr>bins := (bins s)[b := ((bins s)[b := bins s ! b + x]) ! (num_open_bins s - 1)],
                positions := (positions s)[i := b],
                num_open_bins := num_open_bins s - 1,
                num_full_bins := num_full_bins s + 1\<rparr>"
  | (new) "\<forall>j<num_open_bins s. \<not> (unat (bins s ! j + x) \<le> K \<and> 0 < bins s ! j + x)"
      "num_open_bins s < n"
      "s' = s\<lparr>bins := (bins s)[num_open_bins s := x],
                positions := (positions s)[i := num_open_bins s],
                num_open_bins := num_open_bins s + 1\<rparr>"
proof -
  from step have le: "num_open_bins s \<le> n"
    by (auto simp: bf_step_def split: if_splits)
  let ?bs = "take (num_open_bins s) (bins s)"
  obtain bb bc where sc: "scan K x 0 ?bs (n, 0) = (bb, bc)"
    by (cases "scan K x 0 ?bs (n, 0)")
  have lbs: "length ?bs = num_open_bins s"
    using le len by simp
  from scan_start [OF sc] lbs le
  consider (none) "bb = n" "\<forall>j<num_open_bins s. \<not> (unat (?bs ! j + x) \<le> K \<and> 0 < ?bs ! j + x)"
    | (some) "bb < n" "chosen K x ?bs bb"
    by auto
  then show thesis
  proof cases
    case none
    then have "\<forall>j<num_open_bins s. \<not> (unat (bins s ! j + x) \<le> K \<and> 0 < bins s ! j + x)"
      by simp
    moreover from step sc none(1) le have "num_open_bins s < n"
      and "s' = s\<lparr>bins := (bins s)[num_open_bins s := x],
                positions := (positions s)[i := num_open_bins s],
                num_open_bins := num_open_bins s + 1\<rparr>"
      by (auto simp: bf_step_def split: if_splits)
    ultimately show thesis by (rule new)
  next
    case some
    from some(2) lbs have b: "bb < num_open_bins s"
      by (simp add: chosen_def)
    with len le have upd: "(bins s)[bb := bins s ! bb + x] ! bb = bins s ! bb + x"
      by simp
    show thesis
    proof (cases "lim < bins s ! bb + x")
      case True
      with step sc some(1) le upd
      have "s' = s\<lparr>bins := (bins s)[bb := ((bins s)[bb := bins s ! bb + x]) ! (num_open_bins s - 1)],
                positions := (positions s)[i := bb],
                num_open_bins := num_open_bins s - 1,
                num_full_bins := num_full_bins s + 1\<rparr>"
        by (simp add: bf_step_def Let_def)
      with some(2) b le True show thesis by (rule retire)
    next
      case False
      with step sc some(1) le upd
      have "s' = s\<lparr>bins := (bins s)[bb := bins s ! bb + x], positions := (positions s)[i := bb]\<rparr>"
        by (simp add: bf_step_def Let_def)
      with some(2) b le False show thesis by (rule keep)
    qed
  qed
qed

lemma mset_take_update:
  assumes "b < m" and "m \<le> length bs"
  shows "mset (take m (bs[b := v])) = add_mset v (mset (take m bs) - {#bs ! b#})"
    and "bs ! b \<in># mset (take m bs)"
proof -
  from assms have "take m (bs[b := v]) = (take m bs)[b := v]" and "b < length (take m bs)"
    by (simp_all add: take_update_swap)
  then show "mset (take m (bs[b := v])) = add_mset v (mset (take m bs) - {#bs ! b#})"
    using assms by (simp add: mset_update)
  from assms have "take m bs ! b \<in> set (take m bs)"
    by (intro nth_mem) simp
  with assms show "bs ! b \<in># mset (take m bs)"
    by simp
qed

lemma mset_take_Suc:
  assumes "m < length bs"
  shows "mset (take (Suc m) bs) = add_mset (bs ! m) (mset (take m bs))"
  using assms by (simp add: take_Suc_conv_app_nth)

lemma mset_take_swap_remove:
  assumes "b < m" and "m \<le> length bs"
  shows "mset (take (m - 1) (bs[b := (bs[b := v]) ! (m - 1)])) = mset (take m bs) - {#bs ! b#}"
proof (cases "b = m - 1")
  case True
  with assms have "take (m - 1) (bs[b := (bs[b := v]) ! (m - 1)]) = take (m - 1) bs"
    by simp
  moreover from assms True have "mset (take m bs) = add_mset (bs ! b) (mset (take (m - 1) bs))"
    using mset_take_Suc [of "m - 1" bs] by simp
  ultimately show ?thesis by simp
next
  case False
  with assms have b: "b < m - 1" and m: "m - 1 < length bs" "Suc (m - 1) = m"
    by simp_all
  from False have w: "(bs[b := v]) ! (m - 1) = bs ! (m - 1)"
    by simp
  from b m have "mset (take (m - 1) (bs[b := bs ! (m - 1)])) =
      add_mset (bs ! (m - 1)) (mset (take (m - 1) bs) - {#bs ! b#})"
    and "bs ! b \<in># mset (take (m - 1) bs)"
    using mset_take_update [of b "m - 1" bs] by simp_all
  moreover have "mset (take m bs) = add_mset (bs ! (m - 1)) (mset (take (m - 1) bs))"
    using mset_take_Suc [OF m(1)] m(2) by simp
  ultimately show ?thesis
    using w by simp
qed

lemma mset_take_new:
  assumes "m < length bs"
  shows "mset (take (Suc m) (bs[m := x])) = add_mset x (mset (take m bs))"
  using assms by (simp add: take_Suc_conv_app_nth)

text \<open>The three outcomes of one iteration, on the multiset of the open bins' loads.\<close>

lemma bf_step_open_loads:
  assumes step: "bf_step K lim n i x s = Inr s'" and len: "length (bins s) = n"
  obtains
    (keep) l M where "open_loads s = add_mset l M" "open_loads s' = add_mset (l + x) M"
      "unat (l + x) \<le> K" "0 < l + x" "\<not> lim < l + x"
      "\<forall>l' \<in># open_loads s. unat (l' + x) \<le> K \<longrightarrow> l' + x \<le> l + x"
      "num_open_bins s' = num_open_bins s" "num_full_bins s' = num_full_bins s"
  | (retire) l M where "open_loads s = add_mset l M" "open_loads s' = M"
      "unat (l + x) \<le> K" "0 < l + x" "lim < l + x"
      "\<forall>l' \<in># open_loads s. unat (l' + x) \<le> K \<longrightarrow> l' + x \<le> l + x"
      "Suc (num_open_bins s') = num_open_bins s" "num_full_bins s' = Suc (num_full_bins s)"
  | (new) "open_loads s' = add_mset x (open_loads s)"
      "\<forall>l' \<in># open_loads s. \<not> (unat (l' + x) \<le> K \<and> 0 < l' + x)"
      "num_open_bins s' = Suc (num_open_bins s)" "num_full_bins s' = num_full_bins s"
      "num_open_bins s < n"
proof -
  let ?m = "num_open_bins s"
  let ?bs = "take ?m (bins s)"
  have all: "(\<forall>l' \<in># open_loads s. P l') \<longleftrightarrow> (\<forall>j<?m. P (bins s ! j))" if "?m \<le> n" for P
  proof -
    from that len have "length ?bs = ?m" by simp
    then have "set ?bs = {?bs ! j | j. j < ?m}"
      by (simp add: set_conv_nth)
    also have "\<dots> = {bins s ! j | j. j < ?m}"
      by (intro Collect_cong ex_cong1) auto
    finally show ?thesis by (auto simp: open_loads_def)
  qed
  from step len show thesis
  proof (cases rule: bf_stepE)
    case (keep b)
    from keep(2,3) len have b: "b < ?m" "?m \<le> length (bins s)" by simp_all
    let ?l = "bins s ! b"
    define M where "M = mset ?bs - {#?l#}"
    from mset_take_update [OF b] have "open_loads s = add_mset ?l M"
      and "open_loads s' = add_mset (?l + x) M"
      by (simp_all add: open_loads_def M_def keep(5))
    moreover from keep(1) b have "unat (?l + x) \<le> K" "0 < ?l + x"
      and "\<forall>j<?m. unat (bins s ! j + x) \<le> K \<longrightarrow> bins s ! j + x \<le> ?l + x"
      using len by (simp_all add: chosen_def)
    moreover from this(3) have "\<forall>l' \<in># open_loads s. unat (l' + x) \<le> K \<longrightarrow> l' + x \<le> ?l + x"
      using all [OF keep(3)] by simp
    ultimately show thesis
      using keep(4,5) by (intro that(1) [of ?l M]) simp_all
  next
    case (retire b)
    from retire(2,3) len have b: "b < ?m" "?m \<le> length (bins s)" by simp_all
    let ?l = "bins s ! b"
    define M where "M = mset ?bs - {#?l#}"
    from mset_take_update(2) [OF b] have "open_loads s = add_mset ?l M"
      by (simp add: open_loads_def M_def)
    moreover from mset_take_swap_remove [OF b] have "open_loads s' = M"
      by (simp add: open_loads_def M_def retire(5))
    moreover from retire(1) b have "unat (?l + x) \<le> K" "0 < ?l + x"
      and "\<forall>j<?m. unat (bins s ! j + x) \<le> K \<longrightarrow> bins s ! j + x \<le> ?l + x"
      using len by (simp_all add: chosen_def)
    moreover from this(3) have "\<forall>l' \<in># open_loads s. unat (l' + x) \<le> K \<longrightarrow> l' + x \<le> ?l + x"
      using all [OF retire(3)] by simp
    ultimately show thesis
      using retire(4,5) b by (intro that(2) [of ?l M]) simp_all
  next
    case new
    from new(2) len have "open_loads s' = add_mset x (open_loads s)"
      using mset_take_new [of ?m "bins s" x] by (simp add: open_loads_def new(3))
    moreover from new(1,2) have "\<forall>l' \<in># open_loads s. \<not> (unat (l' + x) \<le> K \<and> 0 < l' + x)"
      using all [of "\<lambda>l. \<not> (unat (l + x) \<le> K \<and> 0 < l + x)"] by simp
    ultimately show thesis
      using new(2,3) by (intro that(3)) simp_all
  qed
qed

section \<open>Word arithmetic without wrap-around\<close>

lemma unat_limit_capacity:
  assumes "min_size \<le> K" and "K < 2 ^ 32"
  shows "unat (limit_capacity K min_size) = K - min_size"
proof -
  from assms have a: "unat (of_nat K :: u32) = K" "unat (of_nat min_size :: u32) = min_size"
    by (simp_all add: unat_of_nat)
  with assms have "(of_nat min_size :: u32) \<le> of_nat K"
    by (simp add: word_le_nat_alt)
  then show ?thesis
    by (simp add: limit_capacity_def unat_sub a)
qed

lemma unat_add_no_wrap:
  fixes l x :: u32
  assumes "unat l \<le> K" and "unat x \<le> K" and "2 * K < 2 ^ 32"
  shows "unat (l + x) = unat l + unat x"
  using assms by (intro unat_add_lem [THEN iffD1]) simp

section \<open>The open bins of best\_fit\<close>


lemma bf_step_length:
  assumes "bf_step K lim n i x s = Inr s'" and "length (bins s) = n"
  shows "length (bins s') = n" and "length (positions s') = length (positions s)"
  using assms by (cases rule: bf_stepE; simp)+

lemma all_open_loads:
  assumes "num_open_bins s \<le> length (bins s)"
  shows "(\<forall>l \<in># open_loads s. P l) \<longleftrightarrow> (\<forall>j<num_open_bins s. P (bins s ! j))"
proof -
  let ?m = "num_open_bins s"
  let ?bs = "take ?m (bins s)"
  from assms have "length ?bs = ?m" by simp
  then have "set ?bs = {?bs ! j | j. j < ?m}"
    by (simp add: set_conv_nth)
  also have "\<dots> = {bins s ! j | j. j < ?m}"
    by (intro Collect_cong ex_cong1) auto
  finally show ?thesis by (auto simp: open_loads_def)
qed






section \<open>The heap order of simple\_heap\<close>

lemma is_heap_except_up: "is_heap e m \<Longrightarrow> heap_except_up e m i"
  unfolding is_heap_def heap_except_up_def
proof (intro conjI allI impI)
  fix j
  assume h: "\<forall>j. 2 \<le> j \<and> j \<le> m \<longrightarrow> e ! j \<le> e ! (j div 2)"
    and j: "2 \<le> j \<and> j \<le> m \<and> j div 2 = i \<and> 2 \<le> i"
  then have "e ! j \<le> e ! i" by auto
  moreover from j have "i \<le> m" by auto
  with h j have "e ! i \<le> e ! (i div 2)" by auto
  ultimately show "e ! j \<le> e ! (i div 2)" by simp
qed auto

lemma is_heap_except_down: "is_heap e m \<Longrightarrow> heap_except_down e m i"
  using is_heap_except_up [of e m i] by (auto simp: is_heap_def heap_except_up_def heap_except_down_def)

lemma sift_up_heap:
  "heap_except_up e m i \<Longrightarrow> i \<le> m \<Longrightarrow> m < length e \<Longrightarrow> is_heap (sift_up e i) m"
proof (induction e i rule: sift_up.induct)
  case (1 e i)
  let ?p = "i div 2"
  show ?case
  proof (cases "1 < i \<and> e ! ?p < e ! i")
    case False
    then have "sift_up e i = e"
      by (subst sift_up.simps) auto
    moreover have "is_heap e m"
      unfolding is_heap_def
    proof (intro allI impI)
      fix j assume j: "2 \<le> j \<and> j \<le> m"
      show "e ! j \<le> e ! (j div 2)"
      proof (cases "j = i")
        case True
        with j False show ?thesis by auto
      next
        case False
        with j "1.prems"(1) show ?thesis by (simp add: heap_except_up_def)
      qed
    qed
    ultimately show ?thesis by simp
  next
    case True
    let ?e = "e[?p := e ! i, i := e ! ?p]"
    from True have up: "sift_up e i = sift_up ?e ?p"
      by (subst sift_up.simps) simp
    from True have lt: "e ! ?p < e ! i" and le: "e ! ?p \<le> e ! i" and gi: "1 < i"
      by (auto intro: less_imp_le)
    from True "1.prems" have bounds: "?p < i" "i < length e" "?p < length e" "1 \<le> ?p"
      by auto
    from "1.prems"(1) have A: "\<And>j. 2 \<le> j \<Longrightarrow> j \<le> m \<Longrightarrow> j \<noteq> i \<Longrightarrow> e ! j \<le> e ! (j div 2)"
      and B: "\<And>j. 2 \<le> j \<Longrightarrow> j \<le> m \<Longrightarrow> j div 2 = i \<Longrightarrow> 2 \<le> i \<Longrightarrow> e ! j \<le> e ! ?p"
      by (auto simp: heap_except_up_def)
    have "heap_except_up ?e m ?p"
      unfolding heap_except_up_def
    proof (intro conjI allI impI)
      fix j assume j: "2 \<le> j \<and> j \<le> m \<and> j \<noteq> ?p"
      then have jl: "j < length e" "j div 2 < length e" "j div 2 < j"
        using "1.prems" by auto
      show "?e ! j \<le> ?e ! (j div 2)"
      proof (cases "j = i")
        case True
        with bounds le show ?thesis by simp
      next
        case ji: False
        show ?thesis
        proof (cases "j div 2 = i")
          case True
          with j ji bounds jl have "?e ! j = e ! j" "?e ! (j div 2) = e ! ?p"
            by simp_all
          moreover from B [of j] j True gi have "e ! j \<le> e ! ?p"
            by simp
          ultimately show ?thesis by simp
        next
          case False
          show ?thesis
          proof (cases "j div 2 = ?p")
            case True
            with j ji bounds jl have "?e ! j = e ! j" "?e ! (j div 2) = e ! i"
              by simp_all
            moreover from A [of j] j ji True have "e ! j \<le> e ! ?p"
              by simp
            ultimately show ?thesis
              using le by simp
          next
            case False
            with j ji \<open>j div 2 \<noteq> i\<close> have "?e ! j = e ! j" "?e ! (j div 2) = e ! (j div 2)"
              by simp_all
            with A [of j] j ji show ?thesis by simp
          qed
        qed
      qed
    next
      fix j assume j: "2 \<le> j \<and> j \<le> m \<and> j div 2 = ?p \<and> 2 \<le> ?p"
      then have pp: "?p div 2 < ?p" "?p div 2 \<noteq> i" "?p \<le> m" "?p \<noteq> i"
        using bounds "1.prems" by auto
      with bounds have top: "?e ! (?p div 2) = e ! (?p div 2)"
        by simp
      from A [of ?p] j pp have pq: "e ! ?p \<le> e ! (?p div 2)"
        by simp
      show "?e ! j \<le> ?e ! (?p div 2)"
      proof (cases "j = i")
        case True
        with bounds have "?e ! j = e ! ?p" by simp
        with pq top show ?thesis by simp
      next
        case False
        with j bounds have "?e ! j = e ! j"
          by auto
        moreover from A [of j] j False have "e ! j \<le> e ! ?p"
          by simp
        ultimately show ?thesis using pq top by simp
      qed
    qed
    moreover from bounds "1.prems" have "?p \<le> m" "m < length ?e"
      by simp_all
    ultimately have "is_heap (sift_up ?e ?p) m"
      using "1.IH" True by blast
    with up show ?thesis by simp
  qed
qed


lemma larger_child_props:
  assumes "g = larger_child e m i" and "1 \<le> i"
  shows "g = i \<or> (g div 2 = i \<and> i < g \<and> g \<le> m \<and> 2 \<le> g \<and> e ! i < e ! g)"
    and "\<And>c. 2 \<le> c \<Longrightarrow> c \<le> m \<Longrightarrow> c div 2 = i \<Longrightarrow> e ! c \<le> e ! g"
proof -
  show "g = i \<or> (g div 2 = i \<and> i < g \<and> g \<le> m \<and> 2 \<le> g \<and> e ! i < e ! g)"
    using assms by (auto simp: larger_child_def Let_def)
  fix c assume c: "2 \<le> c" "c \<le> m" "c div 2 = i"
  then have "c = 2 * i \<or> c = 2 * i + 1"
    by auto
  then show "e ! c \<le> e ! g"
  proof
    assume "c = 2 * i"
    with c assms show ?thesis
      by (auto simp: larger_child_def Let_def not_less intro: less_imp_le order_trans)
  next
    assume "c = 2 * i + 1"
    with c assms show ?thesis
      by (auto simp: larger_child_def Let_def not_less)
  qed
qed

lemma sift_down_heap:
  "heap_except_down e m i \<Longrightarrow> 1 \<le> i \<Longrightarrow> m < length e \<Longrightarrow> is_heap (sift_down e m i) m"
proof (induction e m i rule: sift_down.induct)
  case (1 e m i)
  define g where "g = larger_child e m i"
  note lc = larger_child_props [OF g_def "1.prems"(2)]
  from "1.prems"(1) have A: "\<And>j. 2 \<le> j \<Longrightarrow> j \<le> m \<Longrightarrow> j div 2 \<noteq> i \<Longrightarrow> e ! j \<le> e ! (j div 2)"
    and B: "\<And>j. 2 \<le> j \<Longrightarrow> j \<le> m \<Longrightarrow> j div 2 = i \<Longrightarrow> 2 \<le> i \<Longrightarrow> e ! j \<le> e ! (i div 2)"
    by (auto simp: heap_except_down_def)
  show ?case
  proof (cases "g = i")
    case True
    then have "sift_down e m i = e"
      by (subst sift_down.simps) (simp add: g_def)
    moreover have "is_heap e m"
      unfolding is_heap_def
    proof (intro allI impI)
      fix j assume j: "2 \<le> j \<and> j \<le> m"
      show "e ! j \<le> e ! (j div 2)"
      proof (cases "j div 2 = i")
        case ji: True
        with lc(2) [of j] j True show ?thesis by simp
      next
        case False
        with A [of j] j show ?thesis by simp
      qed
    qed
    ultimately show ?thesis by simp
  next
    case False
    let ?e = "e[i := e ! g, g := e ! i]"
    from False have down: "sift_down e m i = sift_down ?e m g"
      by (subst sift_down.simps) (simp add: g_def Let_def)
    from lc(1) False have g: "g div 2 = i" "i < g" "g \<le> m" "2 \<le> g" "e ! i < e ! g"
      by simp_all
    then have le: "e ! i \<le> e ! g"
      by (auto intro: less_imp_le)
    from g "1.prems" have bounds: "i < length e" "g < length e"
      by simp_all
    have "heap_except_down ?e m g"
      unfolding heap_except_down_def
    proof (intro conjI allI impI)
      fix j assume j: "2 \<le> j \<and> j \<le> m \<and> j div 2 \<noteq> g"
      then have jl: "j < length e" "j div 2 < j"
        using "1.prems" by auto
      show "?e ! j \<le> ?e ! (j div 2)"
      proof (cases "j = g")
        case True
        with g bounds le show ?thesis by simp
      next
        case jg: False
        show ?thesis
        proof (cases "j = i")
          case True
          with j g have "2 \<le> i" "i div 2 \<noteq> i" "i div 2 \<noteq> g" by auto
          with True bounds g have "?e ! j = e ! g" "?e ! (j div 2) = e ! (i div 2)"
            by simp_all
          moreover from B [of g] g \<open>2 \<le> i\<close> have "e ! g \<le> e ! (i div 2)"
            by simp
          ultimately show ?thesis by simp
        next
          case ji: False
          show ?thesis
          proof (cases "j div 2 = i")
            case True
            with j jg ji bounds g have "?e ! j = e ! j" "?e ! (j div 2) = e ! g"
              by simp_all
            with lc(2) [of j] j True show ?thesis by simp
          next
            case False
            with j jg ji have "?e ! j = e ! j" "?e ! (j div 2) = e ! (j div 2)"
              by simp_all
            with A [of j] j False show ?thesis by simp
          qed
        qed
      qed
    next
      fix j assume j: "2 \<le> j \<and> j \<le> m \<and> j div 2 = g \<and> 2 \<le> g"
      with g have ne: "j \<noteq> i" "j \<noteq> g" "j div 2 \<noteq> i"
        by auto
      with g bounds have "?e ! j = e ! j" "?e ! (g div 2) = e ! g"
        by simp_all
      moreover from A [of j] j ne have "e ! j \<le> e ! g"
        by simp
      ultimately show "?e ! j \<le> ?e ! (g div 2)" by simp
    qed
    moreover from g "1.prems" have "1 \<le> g" "m < length ?e"
      by simp_all
    ultimately have "is_heap (sift_down ?e m g) m"
      using "1.IH" [OF g_def False] by blast
    with down show ?thesis by simp
  qed
qed

section \<open>The breadth-first search of best\_fit\_heap\<close>

lemma bfs_weight_append [simp]: "bfs_weight nb (q @ r) = bfs_weight nb q + bfs_weight nb r"
  by (simp add: bfs_weight_def)

lemma bfs_weight_children:
  assumes "1 \<le> j"
  shows "bfs_weight nb (children nb j) < 2 ^ (Suc nb - j)"
proof -
  from assms have pj: "(2::nat) \<le> 2 ^ j"
    using power_increasing [of 1 j "2::nat"] by simp
  consider (two) "2 * j + 1 \<le> nb" | (one) "nb = 2 * j" | (none) "nb < 2 * j"
    by linarith
  then show ?thesis
  proof cases
    case two
    then obtain d where d: "nb = 2 * j + 1 + d"
      using le_Suc_ex by blast
    have "Suc nb - 2 * j = d + 2" "Suc nb - (2 * j + 1) = d + 1" "Suc nb - j = d + 2 + j"
      using d by simp_all
    then have "bfs_weight nb (children nb j) = 6 * 2 ^ d" and "(2::nat) ^ (Suc nb - j) = 4 * 2 ^ j * 2 ^ d"
      using two by (simp_all add: bfs_weight_def children_def power_add)
    moreover have "6 * (2::nat) ^ d < 4 * 2 * 2 ^ d"
      by simp
    moreover have "4 * 2 * (2::nat) ^ d \<le> 4 * 2 ^ j * 2 ^ d"
      using pj by simp
    ultimately show ?thesis by linarith
  next
    case one
    then have "bfs_weight nb (children nb j) = 2" and "(2::nat) ^ (Suc nb - j) = 2 * 2 ^ j"
      by (simp_all add: bfs_weight_def children_def)
    with pj show ?thesis by simp
  next
    case none
    then show ?thesis
      by (simp add: bfs_weight_def children_def)
  qed
qed

lemma set_children: "c \<in> set (children nb j) \<Longrightarrow> 1 \<le> j \<Longrightarrow> 1 \<le> c \<and> c \<le> nb \<and> c div 2 = j"
  by (auto simp: children_def split: if_splits)

lemma bfs_unfold:
  "bfs K e x nb (j # q) best =
     (if unat (e ! j + x) \<le> K
      then bfs K e x nb (q @ children nb j) (if snd best < e ! j + x then (j, e ! j + x) else best)
      else bfs K e x nb q best)"
  by (subst bfs.simps) (simp add: children_def Let_def)

lemma bfs_result:
  assumes "\<forall>j \<in> set q. 1 \<le> j \<and> j \<le> nb"
  shows "\<exists>bb bc. bfs K e x nb q best = Some (bb, bc) \<and>
           ((bb, bc) = best \<or>
            (1 \<le> bb \<and> bb \<le> nb \<and> bc = e ! bb + x \<and> unat bc \<le> K \<and> snd best < bc))"
  using assms
proof (induction "bfs_weight nb q" arbitrary: q best rule: less_induct)
  case less
  show ?case
  proof (cases q)
    case Nil
    then show ?thesis
      by (subst bfs.simps) (cases best, simp)
  next
    case (Cons j q')
    with less.prems have j: "1 \<le> j" "j \<le> nb" and q': "\<forall>j \<in> set q'. 1 \<le> j \<and> j \<le> nb"
      by simp_all
    let ?t = "e ! j + x"
    show ?thesis
    proof (cases "unat ?t \<le> K")
      case True
      let ?best = "if snd best < ?t then (j, ?t) else best"
      have "bfs_weight nb (q' @ children nb j) < bfs_weight nb q"
        using bfs_weight_children [OF j(1), of nb] Cons by (simp add: bfs_weight_def)
      moreover have "\<forall>c \<in> set (q' @ children nb j). 1 \<le> c \<and> c \<le> nb"
        using q' j(1) set_children [of _ nb j] by auto
      ultimately obtain bb bc where r: "bfs K e x nb (q' @ children nb j) ?best = Some (bb, bc)"
        "(bb, bc) = ?best \<or> (1 \<le> bb \<and> bb \<le> nb \<and> bc = e ! bb + x \<and> unat bc \<le> K \<and> snd ?best < bc)"
        using less.hyps [of "q' @ children nb j" ?best] by blast
      from r(1) True Cons have "bfs K e x nb q best = Some (bb, bc)"
        by (simp add: bfs_unfold)
      moreover from r(2) True j
      have "(bb, bc) = best \<or> (1 \<le> bb \<and> bb \<le> nb \<and> bc = e ! bb + x \<and> unat bc \<le> K \<and> snd best < bc)"
        by (auto split: if_splits)
      ultimately show ?thesis by blast
    next
      case False
      have "bfs_weight nb q' < bfs_weight nb q"
        using Cons by (simp add: bfs_weight_def)
      with q' obtain bb bc where r: "bfs K e x nb q' best = Some (bb, bc)"
        "(bb, bc) = best \<or> (1 \<le> bb \<and> bb \<le> nb \<and> bc = e ! bb + x \<and> unat bc \<le> K \<and> snd best < bc)"
        using less.hyps [of q' best] by blast
      from r(1) False Cons have "bfs K e x nb q best = Some (bb, bc)"
        by (simp add: bfs_unfold)
      with r(2) show ?thesis by blast
    qed
  qed
qed

section \<open>push and reheap\_down keep the heap order\<close>

lemma length_sift_up [simp]: "length (sift_up e i) = length e"
proof (induction e i rule: sift_up.induct)
  case (1 e i)
  show ?case
  proof (cases "1 < i \<and> e ! (i div 2) < e ! i")
    case True
    then have "sift_up e i = sift_up (e[i div 2 := e ! i, i := e ! (i div 2)]) (i div 2)"
      by (subst sift_up.simps) simp
    with "1.IH" True show ?thesis by simp
  next
    case False
    then have "sift_up e i = e"
      by (subst sift_up.simps) auto
    then show ?thesis by simp
  qed
qed

lemma length_sift_down [simp]: "length (sift_down e m i) = length e"
proof (induction e m i rule: sift_down.induct)
  case (1 e m i)
  define g where "g = larger_child e m i"
  show ?case
  proof (cases "g = i")
    case True
    then have "sift_down e m i = e"
      by (subst sift_down.simps) (simp add: g_def)
    then show ?thesis by simp
  next
    case False
    then have "sift_down e m i = sift_down (e[i := e ! g, g := e ! i]) m g"
      by (subst sift_down.simps) (simp add: g_def Let_def)
    with "1.IH" [OF g_def False] show ?thesis by simp
  qed
qed

lemma push_heap:
  assumes "is_heap (elements h) (heap_size h)" and "heap_size h + 1 < length (elements h)"
  shows "is_heap (elements (push h v)) (heap_size (push h v))"
proof -
  let ?m = "heap_size h + 1"
  let ?e = "(elements h)[?m := v]"
  from assms(1) have A: "\<And>j. 2 \<le> j \<Longrightarrow> j \<le> heap_size h \<Longrightarrow> elements h ! j \<le> elements h ! (j div 2)"
    by (simp add: is_heap_def)
  have "heap_except_up ?e ?m ?m"
    unfolding heap_except_up_def
  proof (intro conjI allI impI)
    fix j assume "2 \<le> j \<and> j \<le> ?m \<and> j \<noteq> ?m"
    then have j: "2 \<le> j" "j \<le> heap_size h" "j \<noteq> ?m" "j div 2 \<noteq> ?m"
      by auto
    then have "?e ! j = elements h ! j" "?e ! (j div 2) = elements h ! (j div 2)"
      by simp_all
    with A [OF j(1,2)] show "?e ! j \<le> ?e ! (j div 2)" by simp
  next
    fix j assume "2 \<le> j \<and> j \<le> ?m \<and> j div 2 = ?m \<and> 2 \<le> ?m"
    then have False by auto
    then show "?e ! j \<le> ?e ! (?m div 2)" ..
  qed
  with assms(2) have "is_heap (sift_up ?e ?m) ?m"
    by (intro sift_up_heap) simp_all
  then show ?thesis by (simp add: push_def Let_def)
qed

lemma reheap_down_heap:
  assumes heap: "is_heap e m" and b: "1 \<le> b" "b \<le> m" and m: "m < length e"
  shows "is_heap (sift_down (sift_up (e[b := v]) b) m b) m"
proof -
  let ?e = "e[b := v]"
  from heap have A: "\<And>j. 2 \<le> j \<Longrightarrow> j \<le> m \<Longrightarrow> e ! j \<le> e ! (j div 2)"
    by (simp add: is_heap_def)
  from b m have vb: "?e ! b = v" by simp
  have other: "?e ! j = e ! j" if "j \<noteq> b" for j
    using that by simp
  show ?thesis
  proof (cases "e ! b \<le> v")
    case True
    have "heap_except_up ?e m b"
      unfolding heap_except_up_def
    proof (intro conjI allI impI)
      fix j assume j: "2 \<le> j \<and> j \<le> m \<and> j \<noteq> b"
      show "?e ! j \<le> ?e ! (j div 2)"
      proof (cases "j div 2 = b")
        case jb: True
        from A [of j] j jb have "e ! j \<le> e ! b" by simp
        with True j jb vb other [of j] show ?thesis by simp
      next
        case False
        with j A [of j] other [of j] other [of "j div 2"] show ?thesis by simp
      qed
    next
      fix j assume j: "2 \<le> j \<and> j \<le> m \<and> j div 2 = b \<and> 2 \<le> b"
      then have "j \<noteq> b" "b div 2 \<noteq> b" by auto
      moreover from A [of j] A [of b] j b have "e ! j \<le> e ! (b div 2)" by auto
      ultimately show "?e ! j \<le> ?e ! (b div 2)"
        using other by simp
    qed
    with b m have "is_heap (sift_up ?e b) m"
      by (intro sift_up_heap) simp_all
    then have "heap_except_down (sift_up ?e b) m b"
      by (rule is_heap_except_down)
    with b m show ?thesis
      by (intro sift_down_heap) simp_all
  next
    case False
    then have lt: "v < e ! b" by simp
    have "\<not> (1 < b \<and> ?e ! (b div 2) < ?e ! b)"
    proof
      assume a: "1 < b \<and> ?e ! (b div 2) < ?e ! b"
      then have "b div 2 \<noteq> b" "2 \<le> b" by auto
      with a vb other [of "b div 2"] have "e ! (b div 2) < v" by simp
      moreover from A [of b] \<open>2 \<le> b\<close> b have "e ! b \<le> e ! (b div 2)" by simp
      ultimately show False using lt by simp
    qed
    then have up: "sift_up ?e b = ?e"
      by (subst sift_up.simps) auto
    have "heap_except_down ?e m b"
      unfolding heap_except_down_def
    proof (intro conjI allI impI)
      fix j assume j: "2 \<le> j \<and> j \<le> m \<and> j div 2 \<noteq> b"
      show "?e ! j \<le> ?e ! (j div 2)"
      proof (cases "j = b")
        case True
        with j have "b div 2 \<noteq> b" by auto
        moreover from A [of b] j True have "e ! b \<le> e ! (b div 2)" by simp
        ultimately show ?thesis
          using True vb other [of "b div 2"] lt by simp
      next
        case False
        with j A [of j] other [of j] other [of "j div 2"] show ?thesis by simp
      qed
    next
      fix j assume j: "2 \<le> j \<and> j \<le> m \<and> j div 2 = b \<and> 2 \<le> b"
      then have "j \<noteq> b" "b div 2 \<noteq> b" by auto
      moreover from A [of j] A [of b] j b have "e ! j \<le> e ! (b div 2)" by auto
      ultimately show "?e ! j \<le> ?e ! (b div 2)"
        using other by simp
    qed
    with b m have "is_heap (sift_down ?e m b) m"
      by (intro sift_down_heap) simp_all
    with up show ?thesis by simp
  qed
qed


section \<open>The loop of best\_fit\_heap\<close>

text \<open>The two outcomes of one iteration of \<^verbatim>\<open>best_fit_heap\<close>.\<close>

lemma bfh_step_cases:
  assumes inv: "hinv n k s" and k: "k < n"
  obtains
    (update) b bc where "1 \<le> b" "b \<le> num_bins s"
      "num_bins s \<noteq> 0" "unat (elements (heap s) ! 1 + x) \<le> K"
      "bfs K (elements (heap s)) x (num_bins s) [1] (n, 0) = Some (b, bc)"
      "bfh_step K n x s =
         Some (s\<lparr>heap := reheap_down
                   ((heap s)\<lparr>elements := (elements (heap s))[b := elements (heap s) ! b + x]\<rparr>) b\<rparr>)"
  | (insert) "num_bins s = 0 \<or> \<not> unat (elements (heap s) ! 1 + x) \<le> K \<or>
        bfs K (elements (heap s)) x (num_bins s) [1] (n, 0) = Some (n, 0)"
      "bfh_step K n x s = Some (s\<lparr>heap := push (heap s) x, num_bins := num_bins s + 1\<rparr>)"
proof (cases "num_bins s \<noteq> 0 \<and> unat (elements (heap s) ! 1 + x) \<le> K")
  case False
  then have "bfh_step K n x s = Some (s\<lparr>heap := push (heap s) x, num_bins := num_bins s + 1\<rparr>)"
    by (auto simp: bfh_step_def Let_def)
  with False show thesis
    by (intro insert) auto
next
  case True
  let ?e = "elements (heap s)"
  from True have "\<forall>j \<in> set [1::nat]. 1 \<le> j \<and> j \<le> num_bins s"
    by simp
  from bfs_result [OF this, of K ?e x "(n, 0)"] obtain b bc where
    r: "bfs K ?e x (num_bins s) [1] (n, 0) = Some (b, bc)"
      "(b, bc) = (n, 0) \<or> (1 \<le> b \<and> b \<le> num_bins s)"
    by auto
  from r(2) show thesis
  proof
    assume "(b, bc) = (n, 0)"
    with r(1) True
    have "bfh_step K n x s = Some (s\<lparr>heap := push (heap s) x, num_bins := num_bins s + 1\<rparr>)"
      by (simp add: bfh_step_def Let_def)
    with r(1) \<open>(b, bc) = (n, 0)\<close> show thesis
      by (intro insert) auto
  next
    assume b: "1 \<le> b \<and> b \<le> num_bins s"
    with inv k have "b < n"
      by (simp add: hinv_def)
    with r(1) True
    have "bfh_step K n x s =
         Some (s\<lparr>heap := reheap_down ((heap s)\<lparr>elements := ?e[b := ?e ! b + x]\<rparr>) b\<rparr>)"
      by (simp add: bfh_step_def Let_def)
    with b True r(1) show thesis
      by (intro update [of b bc]) auto
  qed
qed

lemma bfh_step_hinv:
  assumes inv: "hinv n k s" and k: "k < n"
  shows "\<exists>s'. bfh_step K n x s = Some s' \<and> hinv n (Suc k) s'"
proof -
  from inv have len: "length (elements (heap s)) = n + 1" and sz: "heap_size (heap s) = num_bins s"
    and nb: "num_bins s \<le> k" and heap: "is_heap (elements (heap s)) (num_bins s)"
    by (simp_all add: hinv_def)
  from inv k show ?thesis
  proof (cases rule: bfh_step_cases [where K = K and x = x])
    case (update b bc)
    let ?s = "s\<lparr>heap := reheap_down
                   ((heap s)\<lparr>elements := (elements (heap s))[b := elements (heap s) ! b + x]\<rparr>) b\<rparr>"
    from heap update(1,2) nb k len
    have "is_heap (sift_down (sift_up ((elements (heap s))[b := elements (heap s) ! b + x]) b)
            (num_bins s) b) (num_bins s)"
      by (intro reheap_down_heap) simp_all
    with len sz nb have "hinv n (Suc k) ?s"
      by (simp add: hinv_def reheap_down_def)
    with update(6) show ?thesis by simp
  next
    case insert
    let ?s = "s\<lparr>heap := push (heap s) x, num_bins := num_bins s + 1\<rparr>"
    from heap sz nb k len have "is_heap (elements (push (heap s) x)) (heap_size (push (heap s) x))"
      by (intro push_heap) simp_all
    with len sz nb have "hinv n (Suc k) ?s"
      by (simp add: hinv_def push_def Let_def)
    with insert(2) show ?thesis by simp
  qed
qed

lemma bfh_loop_hinv:
  assumes "hinv n k s" and "k + length xs \<le> n"
  shows "\<exists>s'. bfh_loop K n xs s = Some s' \<and> hinv n (k + length xs) s'"
  using assms
proof (induction xs arbitrary: k s)
  case Nil
  then show ?case by simp
next
  case (Cons x xs)
  from Cons.prems have "k < n" by simp
  from bfh_step_hinv [OF Cons.prems(1) this] obtain t where
    t: "bfh_step K n x s = Some t" "hinv n (Suc k) t"
    by blast
  from Cons.IH [OF t(2)] Cons.prems(2) obtain s' where
    "bfh_loop K n xs t = Some s'" "hinv n (Suc k + length xs) s'"
    by auto
  with t(1) show ?case by simp
qed

lemma hinv_init: "hinv n 0 (bfh_init n)"
  by (simp add: hinv_def bfh_init_def heap_new_def is_heap_def)

lemma bfh_run_hinv:
  "\<exists>s. bfh_run K objects k = Some s \<and> hinv (length objects) (min k (length objects)) s"
  using bfh_loop_hinv [OF hinv_init, of "take k objects" "length objects" K]
  by (simp add: bfh_run_def min.commute)

text \<open>
  C4. For every instance and every number \<open>k\<close> of objects processed, the loop of
  \<^verbatim>\<open>best_fit_heap\<close> reaches a state (the search always ends) in which the nodes
  \<open>1, ..., num_bins\<close> of the heap satisfy the max-heap property: every node's load is at
  most its parent's, the parent of node \<open>j\<close> being node \<open>j div 2\<close>. Each step is either a
  \<^verbatim>\<open>push\<close> of a new bin or an in-place update of a node followed by \<^verbatim>\<open>reheap_down\<close>.
\<close>

theorem heap_property_maintained:
  "\<exists>s. bfh_run K objects k = Some s \<and> heap_size (heap s) = num_bins s \<and>
        is_heap (elements (heap s)) (heap_size (heap s))"
  using bfh_run_hinv [of K objects k] by (auto simp: hinv_def)

theorem heap_property_maintained_witness:
  "bfh_run 10 [6, 5, 5, 3, 2, 7, 1, 1] 8 =
     Some \<lparr>heap = \<lparr>elements = [0, 10, 7, 5, 2, 5, 1, 0, 0], heap_size = 6\<rparr>, num_bins = 6\<rparr> \<and>
   [0 :: u32, 10, 7, 5, 2, 5, 1, 0, 0] ! 5 \<le> [0 :: u32, 10, 7, 5, 2, 5, 1, 0, 0] ! (5 div 2)"
proof -
  have run: "bfh_run 10 [6, 5, 5, 3, 2, 7, 1, 1] 8 =
     Some \<lparr>heap = \<lparr>elements = [0, 10, 7, 5, 2, 5, 1, 0, 0], heap_size = 6\<rparr>, num_bins = 6\<rparr>"
    by code_simp
  with heap_property_maintained [of 10 "[6, 5, 5, 3, 2, 7, 1, 1]" 8]
  have "is_heap [0 :: u32, 10, 7, 5, 2, 5, 1, 0, 0] 6"
    by simp
  then have "[0 :: u32, 10, 7, 5, 2, 5, 1, 0, 0] ! 5 \<le> [0 :: u32, 10, 7, 5, 2, 5, 1, 0, 0] ! (5 div 2)"
    unfolding is_heap_def by (elim allE [of _ 5]) simp
  with run show ?thesis by blast
qed

section \<open>The loop of best\_fit on instances without wrap-around\<close>

lemma bf_step_Inl:
  assumes "bf_step K lim n i x s = Inl e" and len: "length (bins s) = n"
  shows "n < num_open_bins s \<or>
         (n \<le> num_open_bins s \<and> (\<forall>l \<in># open_loads s. \<not> (unat (l + x) \<le> K \<and> 0 < l + x)))"
proof (cases "n < num_open_bins s")
  case True
  then show ?thesis by simp
next
  case False
  let ?bs = "take (num_open_bins s) (bins s)"
  obtain bb bc where sc: "scan K x 0 ?bs (n, 0) = (bb, bc)"
    by (cases "scan K x 0 ?bs (n, 0)")
  from False len have lbs: "length ?bs = num_open_bins s" "length ?bs \<le> n"
    by simp_all
  from assms(1) False sc have "\<not> bb < n" and "\<not> num_open_bins s < n"
    by (auto simp: bf_step_def Let_def split: if_splits)
  with scan_start [OF sc lbs(2)] lbs(1)
  have "\<forall>j<num_open_bins s. \<not> (unat (?bs ! j + x) \<le> K \<and> 0 < ?bs ! j + x)"
    by auto
  then have "\<forall>j<num_open_bins s. \<not> (unat (bins s ! j + x) \<le> K \<and> 0 < bins s ! j + x)"
    by simp
  with False len have "\<forall>l \<in># open_loads s. \<not> (unat (l + x) \<le> K \<and> 0 < l + x)"
    using all_open_loads [of s "\<lambda>l. \<not> (unat (l + x) \<le> K \<and> 0 < l + x)"] by simp
  with \<open>\<not> num_open_bins s < n\<close> show ?thesis by simp
qed

lemma word_pos_add:
  fixes l x :: u32
  assumes "unat (l + x) = unat l + unat x" and "0 < unat x"
  shows "0 < l + x"
  using assms by (simp add: word_less_nat_alt)

lemma bf_inv_step:
  assumes inv: "bf_inv K n ys s" and x: "0 < unat x" "unat x \<le> K" and K: "2 * K < 2 ^ 32"
    and k: "length ys < n"
  shows "\<exists>s'. bf_step K lim n (length ys) x s = Inr s' \<and> bf_inv K n (ys @ [x]) s'"
proof -
  from inv have len: "length (bins s) = n" and lenp: "length (positions s) = n"
    and le: "num_open_bins s \<le> n"
    and bound: "\<forall>l \<in># open_loads s. unat l \<le> K"
    and cnt: "num_open_bins s + num_full_bins s \<le> max (length ys) 1"
    and first: "ys = [] \<longrightarrow> open_loads s = {#0#}"
    and pos: "ys \<noteq> [] \<longrightarrow> 0 \<notin># open_loads s"
    and sum: "sum_list (map unat ys) \<le> K * num_full_bins s + (\<Sum>l \<in># open_loads s. unat l)"
    by (simp_all add: bf_inv_def)
  have nowrap: "unat (l + x) = unat l + unat x" if "l \<in># open_loads s" for l
    using that bound x(2) K by (intro unat_add_no_wrap [of _ K]) auto
  have fits0: "unat (0 + x) \<le> K \<and> 0 < 0 + x"
    using x by (simp add: word_less_nat_alt)
  have "bf_step K lim n (length ys) x s \<noteq> Inl e" for e
  proof
    assume "bf_step K lim n (length ys) x s = Inl e"
    from bf_step_Inl [OF this len] le
    have full: "n \<le> num_open_bins s"
      and none: "\<forall>l \<in># open_loads s. \<not> (unat (l + x) \<le> K \<and> 0 < l + x)"
      by auto
    show False
    proof (cases "ys = []")
      case True
      with first none fits0 show False by simp
    next
      case False
      with cnt full k show False by (cases ys) auto
    qed
  qed
  then obtain s' where step: "bf_step K lim n (length ys) x s = Inr s'"
    by (cases "bf_step K lim n (length ys) x s") auto
  from step len have len': "length (bins s') = n" "length (positions s') = n"
    using bf_step_length [OF step len] lenp by simp_all
  from step len have "bf_inv K n (ys @ [x]) s'"
  proof (cases rule: bf_step_open_loads)
    case (keep l M)
    from keep(1) have lin: "l \<in># open_loads s" by simp
    from nowrap [OF lin] have nw: "unat (l + x) = unat l + unat x" .
    have "0 \<notin># M"
    proof (cases "ys = []")
      case True
      with first keep(1) have "M = {#}" by (auto simp: add_mset_eq_single)
      then show ?thesis by simp
    next
      case False
      with pos keep(1) show ?thesis by auto
    qed
    moreover from keep(4) have "l + x \<noteq> 0" by auto
    ultimately have "0 \<notin># open_loads s'"
      using keep(2) by auto
    moreover from bound keep(1,2,3) have "\<forall>l \<in># open_loads s'. unat l \<le> K"
      by auto
    moreover from sum keep(1,2) nw
    have "sum_list (map unat (ys @ [x])) \<le> K * num_full_bins s' + (\<Sum>l \<in># open_loads s'. unat l)"
      by (simp add: keep(8))
    ultimately show ?thesis
      using len' le cnt keep(7,8) by (auto simp: bf_inv_def)
  next
    case (retire l M)
    from retire(1) have lin: "l \<in># open_loads s" by simp
    from nowrap [OF lin] have nw: "unat (l + x) = unat l + unat x" .
    have "0 \<notin># M"
    proof (cases "ys = []")
      case True
      with first retire(1) have "M = {#}" by (auto simp: add_mset_eq_single)
      then show ?thesis by simp
    next
      case False
      with pos retire(1) show ?thesis by auto
    qed
    then have "0 \<notin># open_loads s'"
      using retire(2) by simp
    moreover from bound retire(1,2) have "\<forall>l \<in># open_loads s'. unat l \<le> K"
      by auto
    moreover from sum retire(1,2,3) nw
    have "sum_list (map unat (ys @ [x])) \<le> K * num_full_bins s' + (\<Sum>l \<in># open_loads s'. unat l)"
      by (simp add: retire(8))
    ultimately show ?thesis
      using len' le cnt retire(7,8) by (auto simp: bf_inv_def)
  next
    case new
    have ne: "ys \<noteq> []"
    proof
      assume "ys = []"
      with first new(2) fits0 show False by simp
    qed
    with pos x(1) new(1) have "0 \<notin># open_loads s'"
      by (auto simp: unat_gt_0)
    moreover from bound new(1) x(2) have "\<forall>l \<in># open_loads s'. unat l \<le> K"
      by auto
    moreover from sum new(1)
    have "sum_list (map unat (ys @ [x])) \<le> K * num_full_bins s' + (\<Sum>l \<in># open_loads s'. unat l)"
      by (simp add: new(4))
    moreover from ne cnt have "num_open_bins s + num_full_bins s \<le> length ys"
      by (cases ys) auto
    ultimately show ?thesis
      using len' new(3,4,5) by (auto simp: bf_inv_def)
  qed
  with step show ?thesis by blast
qed

lemma bf_inv_init: "0 < n \<Longrightarrow> bf_inv K n [] (bf_init n)"
  by (cases n) (simp_all add: bf_inv_def bf_init_def open_loads_def)

lemma bf_loop_inv:
  assumes "bf_inv K n ys s" and "\<forall>x\<in>set xs. 0 < unat x \<and> unat x \<le> K" and "2 * K < 2 ^ 32"
    and "length ys + length xs \<le> n"
  shows "\<exists>s'. bf_loop K lim n (length ys) xs s = Inr s' \<and> bf_inv K n (ys @ xs) s'"
  using assms(1,2,4)
proof (induction xs arbitrary: ys s)
  case Nil
  then show ?case by simp
next
  case (Cons x xs)
  from Cons.prems have "0 < unat x" "unat x \<le> K" "length ys < n"
    by simp_all
  from bf_inv_step [OF Cons.prems(1) this(1,2) assms(3) this(3)] obtain t where
    t: "bf_step K lim n (length ys) x s = Inr t" "bf_inv K n (ys @ [x]) t"
    by blast
  from Cons.IH [OF t(2)] Cons.prems obtain s' where
    "bf_loop K lim n (length (ys @ [x])) xs t = Inr s'" "bf_inv K n ((ys @ [x]) @ xs) s'"
    by auto
  with t(1) show ?case by simp
qed

lemma bf_run_inv:
  assumes "\<forall>x\<in>set objects. 0 < unat x \<and> unat x \<le> K" and "2 * K < 2 ^ 32" and "objects \<noteq> []"
  shows "\<exists>s. bf_run K min_size objects k = Inr s \<and> bf_inv K (length objects) (take k objects) s"
proof -
  have "\<forall>x\<in>set (take k objects). 0 < unat x \<and> unat x \<le> K"
    using assms(1) by (auto dest: in_set_takeD)
  moreover from assms(3) have "bf_inv K (length objects) [] (bf_init (length objects))"
    by (simp add: bf_inv_init)
  ultimately show ?thesis
    using bf_loop_inv [of K "length objects" "[]" "bf_init (length objects)" "take k objects"] assms(2)
    by (simp add: bf_run_def)
qed


lemma bf_loop_append:
  "bf_loop K lim n i (xs @ ys) s =
     (case bf_loop K lim n i xs s of
        Inl e \<Rightarrow> Inl e
      | Inr s' \<Rightarrow> bf_loop K lim n (i + length xs) ys s')"
  by (induction xs arbitrary: i s) (simp_all split: sum.splits)

lemma bf_run_Suc:
  assumes "k < length objects" and "bf_run K min_size objects k = Inr s"
  shows "bf_run K min_size objects (Suc k) =
           bf_step K (limit_capacity K min_size) (length objects) k (objects ! k) s"
  using assms
  by (simp add: bf_run_def take_Suc_conv_app_nth bf_loop_append min_absorb2 split: sum.splits)

lemma best_fit_run:
  "best_fit K min_size objects =
     (case bf_run K min_size objects (length objects) of
        Inl e \<Rightarrow> Inl e
      | Inr s \<Rightarrow> Inr (num_open_bins s + num_full_bins s, positions s))"
  by (simp add: best_fit_def bf_run_def)

text \<open>
  C8, as amended. On an instance whose objects are positive and at most \<open>K\<close>, with
  \<open>2 * K < 2 ^ 32\<close> so that no sum of a load and a size wraps around, object \<open>k\<close> is
  handled as follows. If some open bin's load plus the object's size is at most \<open>K\<close>, the
  bin written to \<^verbatim>\<open>positions[k]\<close> is an open bin for which that sum is at most \<open>K\<close>
  and the largest such, every lower-indexed bin within capacity having a smaller sum, and no
  bin is opened. Otherwise a new bin holding the object is opened at index
  \<^verbatim>\<open>num_open_bins\<close>.
\<close>

theorem best_fit_choice:
  assumes valid: "\<forall>x\<in>set objects. 0 < unat x \<and> unat x \<le> K" and K: "2 * K < 2 ^ 32"
    and k: "k < length objects"
  shows "\<exists>s s'. bf_run K min_size objects k = Inr s \<and>
           bf_run K min_size objects (Suc k) = Inr s' \<and>
           (if \<exists>j<num_open_bins s. unat (bins s ! j) + unat (objects ! k) \<le> K
            then positions s' ! k < num_open_bins s \<and>
                 unat (bins s ! (positions s' ! k)) + unat (objects ! k) \<le> K \<and>
                 (\<forall>j<num_open_bins s. unat (bins s ! j) + unat (objects ! k) \<le> K \<longrightarrow>
                    unat (bins s ! j) + unat (objects ! k)
                      \<le> unat (bins s ! (positions s' ! k)) + unat (objects ! k)) \<and>
                 (\<forall>j<positions s' ! k. unat (bins s ! j) + unat (objects ! k) \<le> K \<longrightarrow>
                    unat (bins s ! j) + unat (objects ! k)
                      < unat (bins s ! (positions s' ! k)) + unat (objects ! k)) \<and>
                 num_open_bins s' + num_full_bins s' = num_open_bins s + num_full_bins s
            else positions s' ! k = num_open_bins s \<and>
                 bins s' ! num_open_bins s = objects ! k \<and>
                 num_open_bins s' = Suc (num_open_bins s) \<and>
                 num_full_bins s' = num_full_bins s)"
proof -
  let ?n = "length objects"
  let ?x = "objects ! k"
  let ?lim = "limit_capacity K min_size"
  from k have ne: "objects \<noteq> []" by auto
  from bf_run_inv [OF valid K ne, of min_size k] obtain s where
    s: "bf_run K min_size objects k = Inr s" "bf_inv K ?n (take k objects) s"
    by blast
  from valid k have x: "0 < unat ?x" "unat ?x \<le> K"
    by simp_all
  from k have lk: "length (take k objects) = k" by simp
  from bf_inv_step [OF s(2) x K, of ?lim] k lk obtain s' where
    step: "bf_step K ?lim ?n k ?x s = Inr s'"
    by auto
  with bf_run_Suc [OF k s(1)] have s': "bf_run K min_size objects (Suc k) = Inr s'"
    by simp
  from s(2) have len: "length (bins s) = ?n" and lenp: "length (positions s) = ?n"
    and le: "num_open_bins s \<le> ?n" and bound: "\<forall>l \<in># open_loads s. unat l \<le> K"
    by (simp_all add: bf_inv_def)
  let ?m = "num_open_bins s"
  from bound le len have bj: "\<forall>j<?m. unat (bins s ! j) \<le> K"
    using all_open_loads [of s "\<lambda>l. unat l \<le> K"] by simp
  have nw: "unat (bins s ! j + ?x) = unat (bins s ! j) + unat ?x" if "j < ?m" for j
    using that bj x(2) K by (intro unat_add_no_wrap [of _ K]) auto
  have gt0: "0 < bins s ! j + ?x" if "j < ?m" for j
    using nw [OF that] x(1) by (rule word_pos_add)
  let ?fit = "\<exists>j<?m. unat (bins s ! j) + unat ?x \<le> K"
  from step len have
    "if ?fit
     then positions s' ! k < ?m \<and>
          unat (bins s ! (positions s' ! k)) + unat ?x \<le> K \<and>
          (\<forall>j<?m. unat (bins s ! j) + unat ?x \<le> K \<longrightarrow>
             unat (bins s ! j) + unat ?x \<le> unat (bins s ! (positions s' ! k)) + unat ?x) \<and>
          (\<forall>j<positions s' ! k. unat (bins s ! j) + unat ?x \<le> K \<longrightarrow>
             unat (bins s ! j) + unat ?x < unat (bins s ! (positions s' ! k)) + unat ?x) \<and>
          num_open_bins s' + num_full_bins s' = ?m + num_full_bins s
     else positions s' ! k = ?m \<and> bins s' ! ?m = ?x \<and>
          num_open_bins s' = Suc ?m \<and> num_full_bins s' = num_full_bins s"
  proof (cases rule: bf_stepE)
    case (keep b)
    from keep(2,3) len have lt: "length (take ?m (bins s)) = ?m" by simp
    from keep(1) lt have c: "unat (bins s ! b + ?x) \<le> K"
      "\<forall>j<?m. unat (bins s ! j + ?x) \<le> K \<longrightarrow> bins s ! j + ?x \<le> bins s ! b + ?x"
      "\<forall>j<b. unat (bins s ! j + ?x) \<le> K \<longrightarrow> bins s ! j + ?x < bins s ! b + ?x"
      using keep(2) by (simp_all add: chosen_def)
    from keep(5) k lenp have p: "positions s' ! k = b" by simp
    from c keep(2) nw have "?fit" by auto
    moreover from c keep(2) nw
    have "unat (bins s ! b) + unat ?x \<le> K"
      "\<forall>j<?m. unat (bins s ! j) + unat ?x \<le> K \<longrightarrow>
             unat (bins s ! j) + unat ?x \<le> unat (bins s ! b) + unat ?x"
      "\<forall>j<b. unat (bins s ! j) + unat ?x \<le> K \<longrightarrow>
             unat (bins s ! j) + unat ?x < unat (bins s ! b) + unat ?x"
      by (auto simp: word_le_nat_alt word_less_nat_alt)
    ultimately show ?thesis
      using p keep(2,5) by simp
  next
    case (retire b)
    from retire(2,3) len have lt: "length (take ?m (bins s)) = ?m" by simp
    from retire(1) lt have c: "unat (bins s ! b + ?x) \<le> K"
      "\<forall>j<?m. unat (bins s ! j + ?x) \<le> K \<longrightarrow> bins s ! j + ?x \<le> bins s ! b + ?x"
      "\<forall>j<b. unat (bins s ! j + ?x) \<le> K \<longrightarrow> bins s ! j + ?x < bins s ! b + ?x"
      using retire(2) by (simp_all add: chosen_def)
    from retire(5) k lenp have p: "positions s' ! k = b" by simp
    from c retire(2) nw have "?fit" by auto
    moreover from c retire(2) nw
    have "unat (bins s ! b) + unat ?x \<le> K"
      "\<forall>j<?m. unat (bins s ! j) + unat ?x \<le> K \<longrightarrow>
             unat (bins s ! j) + unat ?x \<le> unat (bins s ! b) + unat ?x"
      "\<forall>j<b. unat (bins s ! j) + unat ?x \<le> K \<longrightarrow>
             unat (bins s ! j) + unat ?x < unat (bins s ! b) + unat ?x"
      by (auto simp: word_le_nat_alt word_less_nat_alt)
    ultimately show ?thesis
      using p retire(2,5) by simp
  next
    case new
    from new(1) nw gt0 have "\<not> ?fit" by auto
    moreover from new(2,3) k lenp len have "positions s' ! k = ?m" "bins s' ! ?m = ?x"
      by simp_all
    ultimately show ?thesis
      using new(3) by simp
  qed
  with s(1) s' show ?thesis by blast
qed

theorem best_fit_choice_witness:
  "bf_run 10 1 [4, 8, 1] 2 =
     Inr \<lparr>bins = [4, 8, 0], positions = [0, 1, 0], num_open_bins = 2, num_full_bins = 0\<rparr> \<and>
   bf_run 10 1 [4, 8, 1] (Suc 2) =
     Inr \<lparr>bins = [4, 9, 0], positions = [0, 1, 1], num_open_bins = 2, num_full_bins = 0\<rparr> \<and>
   [0, 1, 1 :: nat] ! 2 < 2 \<and>
   unat ([4, 8, 0 :: u32] ! ([0, 1, 1] ! 2)) + unat ([4, 8, 1 :: u32] ! 2) \<le> 10 \<and>
   unat ([4, 8, 0 :: u32] ! 0) + unat ([4, 8, 1 :: u32] ! 2)
     < unat ([4, 8, 0 :: u32] ! ([0, 1, 1] ! 2)) + unat ([4, 8, 1 :: u32] ! 2)"
proof -
  have r1: "bf_run 10 1 [4, 8, 1] 2 =
     Inr \<lparr>bins = [4, 8, 0], positions = [0, 1, 0], num_open_bins = 2, num_full_bins = 0\<rparr>"
    by code_simp
  have r2: "bf_run 10 1 [4, 8, 1] (Suc 2) =
     Inr \<lparr>bins = [4, 9, 0], positions = [0, 1, 1], num_open_bins = 2, num_full_bins = 0\<rparr>"
    by code_simp
  have valid: "\<forall>x\<in>set [4, 8, 1 :: u32]. 0 < unat x \<and> unat x \<le> 10"
    by simp
  have K: "2 * (10 :: nat) < 2 ^ 32"
    by simp
  have k: "2 < length [4, 8, 1 :: u32]"
    by simp
  have fit: "\<exists>j<2. unat ([4, 8, 0 :: u32] ! j) + unat ([4, 8, 1 :: u32] ! 2) \<le> 10"
    by (intro exI [of _ 0]) simp
  from best_fit_choice [OF valid K k, of 1] r1 r2 fit
  have "[0, 1, 1 :: nat] ! 2 < 2 \<and>
     unat ([4, 8, 0 :: u32] ! ([0, 1, 1] ! 2)) + unat ([4, 8, 1 :: u32] ! 2) \<le> 10 \<and>
     (\<forall>j<[0, 1, 1 :: nat] ! 2. unat ([4, 8, 0 :: u32] ! j) + unat ([4, 8, 1 :: u32] ! 2) \<le> 10 \<longrightarrow>
        unat ([4, 8, 0 :: u32] ! j) + unat ([4, 8, 1 :: u32] ! 2)
          < unat ([4, 8, 0 :: u32] ! ([0, 1, 1] ! 2)) + unat ([4, 8, 1 :: u32] ! 2))"
    by (simp del: nth_Cons_numeral nth_Cons_Suc One_nat_def)
  with r1 r2 show ?thesis
    by simp
qed

text \<open>
  The claim as stated fails where \<^verbatim>\<open>bins[j]+objects[i]\<close> wraps around: with
  \<open>K = 2147483650\<close> and two objects of size \<open>2147483649\<close> the second object is added to
  bin 0, whose load plus the object's size is \<open>4294967298 > K\<close>; \<^verbatim>\<open>temp_cap\<close> is 2.
\<close>

theorem best_fit_choice_wraps:
  "bf_run 2147483650 1 [2147483649, 2147483649] 1 =
     Inr \<lparr>bins = [2147483649, 0], positions = [0, 0], num_open_bins = 1, num_full_bins = 0\<rparr> \<and>
   bf_run 2147483650 1 [2147483649, 2147483649] 2 =
     Inr \<lparr>bins = [2, 0], positions = [0, 0], num_open_bins = 1, num_full_bins = 0\<rparr> \<and>
   \<not> unat ([2147483649, 0 :: u32] ! 0) + unat (2147483649 :: u32) \<le> 2147483650"
  by (simp add: bf_run_def bf_init_def bf_step_def limit_capacity_def)

section \<open>The table of best\_fit\_lookup and the sizes\<close>

lemma search_first:
  "search bc c = Inr r \<Longrightarrow> \<forall>c'. c \<le> c' \<and> c' < r \<longrightarrow> bc ! c' = 0"
proof (induction bc c rule: search.induct)
  case (1 bc c)
  show ?case
  proof (cases "length bc \<le> c")
    case True
    with "1.prems" show ?thesis by (subst (asm) search.simps) simp
  next
    case False
    show ?thesis
    proof (cases "bc ! c = 0")
      case True
      with False "1.prems" have "search bc (Suc c) = Inr r"
        by (subst (asm) search.simps) simp
      with "1.IH" False True have "\<forall>c'. Suc c \<le> c' \<and> c' < r \<longrightarrow> bc ! c' = 0"
        by simp
      then have rest: "\<And>c'. Suc c \<le> c' \<Longrightarrow> c' < r \<Longrightarrow> bc ! c' = 0"
        by simp
      show ?thesis
      proof (intro allI impI)
        fix c' assume "c \<le> c' \<and> c' < r"
        then consider "c' = c" | "Suc c \<le> c'" "c' < r"
          by linarith
        then show "bc ! c' = 0"
          using True rest by cases simp_all
      qed
    next
      case nz: False
      with False "1.prems" have "r = c"
        by (subst (asm) search.simps) simp
      then show ?thesis by simp
    qed
  qed
qed

lemma lookup_step_result:
  assumes inv: "lookup_inv K n k bc" and k: "k < n" and x: "unat x \<le> K"
  obtains r where "search bc (unat x) = Inr r" "unat x \<le> r" "r \<le> K" "bc ! r \<noteq> 0"
    "\<forall>c. unat x \<le> c \<and> c < r \<longrightarrow> bc ! c = 0"
    "lookup_step x bc = Inr (move_bin bc r (unat x))"
proof -
  from inv have len: "length bc = K + 1" and top: "n - k \<le> bc ! K"
    by (simp_all add: lookup_inv_def)
  from top k have "bc ! K \<noteq> 0" by simp
  with search_finds [of "unat x" K bc] x len obtain r where r: "search bc (unat x) = Inr r" "r \<le> K"
    by auto
  from search_Inr [OF r(1)] have "unat x \<le> r" "bc ! r \<noteq> 0" by simp_all
  moreover note search_first [OF r(1)]
  moreover have "lookup_step x bc = Inr (move_bin bc r (unat x))"
    by (simp add: lookup_step_def r(1) move_bin_def Let_def)
  ultimately show thesis
    using r by (intro that [of r]) simp_all
qed

lemma length_move_bin [simp]: "length (move_bin bc r d) = length bc"
  by (simp add: move_bin_def)

lemma nth_move_bin:
  assumes "r < length bc" and "0 < d" and "d \<le> r"
  shows "move_bin bc r d ! c =
           (if c = r then bc ! c - 1 else if c = r - d then bc ! c + 1 else bc ! c)"
  using assms by (auto simp: move_bin_def nth_list_update)

lemma sum_move_bin:
  assumes len: "length bc = K + 1" and r: "r \<le> K" "bc ! r \<noteq> 0" and d: "0 < d" "d \<le> r"
  shows "(\<Sum>c\<le>K. move_bin bc r d ! c * g c) + g r = (\<Sum>c\<le>K. bc ! c * g c) + g (r - d)"
proof -
  let ?A = "{..K} - {r} - {r - d}"
  let ?b = "move_bin bc r d"
  from len r have rl: "r < length bc" by simp
  from d have ne: "r - d \<noteq> r" by simp
  have split: "(\<Sum>c\<le>K. f c) = f r + (f (r - d) + sum f ?A)" for f :: "nat \<Rightarrow> nat"
  proof -
    have "(\<Sum>c\<le>K. f c) = f r + sum f ({..K} - {r})"
      using r(1) by (intro sum.remove) simp_all
    also have "sum f ({..K} - {r}) = f (r - d) + sum f ?A"
      using r(1) ne by (intro sum.remove) auto
    finally show ?thesis .
  qed
  have "sum (\<lambda>c. ?b ! c * g c) ?A = sum (\<lambda>c. bc ! c * g c) ?A"
    by (intro sum.cong) (simp_all add: nth_move_bin [OF rl d])
  moreover have "?b ! r * g r + g r = bc ! r * g r"
    using r(2) by (simp add: nth_move_bin [OF rl d] algebra_simps flip: mult_Suc)
  moreover have "?b ! (r - d) * g (r - d) = bc ! (r - d) * g (r - d) + g (r - d)"
    using ne by (simp add: nth_move_bin [OF rl d])
  ultimately show ?thesis
    by (simp add: split [of "\<lambda>c. ?b ! c * g c"] split [of "\<lambda>c. bc ! c * g c"])
qed

lemma sum_list_nth_atMost:
  fixes bc :: "nat list"
  assumes "length bc = K + 1"
  shows "sum_list bc = (\<Sum>c\<le>K. bc ! c)" and "sum_list (take K bc) = (\<Sum>c\<le>K. bc ! c * (if c < K then 1 else 0))"
proof -
  from assms show "sum_list bc = (\<Sum>c\<le>K. bc ! c)"
    by (simp add: sum_list_sum_nth atLeast0LessThan lessThan_Suc_atMost)
  have "sum_list (take K bc) = (\<Sum>c<K. bc ! c)"
    using assms by (simp add: sum_list_sum_nth atLeast0LessThan)
  also have "\<dots> = (\<Sum>c<K. bc ! c * (if c < K then 1 else 0))"
    by (intro sum.cong) simp_all
  also have "\<dots> = (\<Sum>c<Suc K. bc ! c * (if c < K then 1 else 0))"
    by (subst sum.lessThan_Suc) simp
  also have "\<dots> = (\<Sum>c\<le>K. bc ! c * (if c < K then 1 else 0))"
    by (simp only: lessThan_Suc_atMost)
  finally show "sum_list (take K bc) = (\<Sum>c\<le>K. bc ! c * (if c < K then 1 else 0))" .
qed

lemma used_move_bin:
  assumes len: "length bc = K + 1" and r: "r \<le> K" "bc ! r \<noteq> 0" and d: "0 < d" "d \<le> r"
  shows "sum_list (take K (move_bin bc r d)) = sum_list (take K bc) + (if r = K then 1 else 0)"
proof -
  from r(1) d have "r - d < K" by linarith
  with sum_move_bin [OF assms, of "\<lambda>c. if c < K then 1 else 0"] r(1) show ?thesis
    by (auto simp: sum_list_nth_atMost(2) len)
qed

lemma capacity_move_bin:
  assumes len: "length bc = K + 1" and r: "r \<le> K" "bc ! r \<noteq> 0" and d: "d \<le> r"
  shows "capacity_sum K (move_bin bc r d) + d = capacity_sum K bc"
proof (cases "d = 0")
  case True
  with len r have "move_bin bc r d = bc"
    by (simp add: move_bin_def list_eq_iff_nth_eq nth_list_update)
  with True show ?thesis by simp
next
  case False
  with sum_move_bin [OF len r _ d, of "\<lambda>c. c"] d show ?thesis
    by (simp add: capacity_sum_def)
qed

lemma lookup_inv2_init: "lookup_inv2 K n [] (lookup_table K n)"
proof -
  have "capacity_sum K (lookup_table K n) = (\<Sum>c\<le>K. if c = K then n * K else 0)"
    unfolding capacity_sum_def by (intro sum.cong) (simp_all add: nth_lookup_table)
  also have "\<dots> = n * K"
    by simp
  finally show ?thesis
    by (simp add: lookup_inv2_def lookup_inv_init)
qed

lemma lookup_inv2_step:
  assumes inv: "lookup_inv2 K n ys bc" and k: "length ys < n" and x: "unat x \<le> K"
  shows "\<exists>bc'. lookup_step x bc = Inr bc' \<and> lookup_inv2 K n (ys @ [x]) bc'"
proof -
  from inv have li: "lookup_inv K n (length ys) bc"
    and cap: "capacity_sum K bc + sum_list (map unat ys) = n * K"
    by (simp_all add: lookup_inv2_def)
  from li have len: "length bc = K + 1" by (simp add: lookup_inv_def)
  from lookup_step_inv [OF li k x] obtain bc' where
    bc': "lookup_step x bc = Inr bc'" "lookup_inv K n (Suc (length ys)) bc'"
    by blast
  from li k x obtain r where r: "unat x \<le> r" "r \<le> K" "bc ! r \<noteq> 0"
    "lookup_step x bc = Inr (move_bin bc r (unat x))"
    by (rule lookup_step_result)
  from capacity_move_bin [OF len r(2,3,1)] cap
  have "capacity_sum K (move_bin bc r (unat x)) + sum_list (map unat (ys @ [x])) = n * K"
    by simp
  with bc' r(4) show ?thesis
    by (simp add: lookup_inv2_def)
qed

lemma lookup_loop_inv2:
  assumes "lookup_inv2 K n ys bc" and "length ys + length xs \<le> n" and "\<forall>x\<in>set xs. unat x \<le> K"
  shows "\<exists>bc'. lookup_loop xs bc = Inr bc' \<and> lookup_inv2 K n (ys @ xs) bc'"
  using assms
proof (induction xs arbitrary: ys bc)
  case Nil
  then show ?case by simp
next
  case (Cons x xs)
  from Cons.prems have "length ys < n" and "unat x \<le> K" by simp_all
  from lookup_inv2_step [OF Cons.prems(1) this] obtain b where
    b: "lookup_step x bc = Inr b" "lookup_inv2 K n (ys @ [x]) b"
    by blast
  from Cons.IH [OF b(2)] Cons.prems obtain bc' where
    "lookup_loop xs b = Inr bc'" "lookup_inv2 K n ((ys @ [x]) @ xs) bc'"
    by auto
  with b(1) show ?case by simp
qed

lemma ceil_div_le:
  fixes S K c :: nat
  assumes "S \<le> K * c"
  shows "(S + K - 1) div K \<le> c"
proof (cases "K = 0")
  case True
  then show ?thesis by simp
next
  case False
  from assms have "S + K - 1 < K * c + K"
    using False by simp
  then have "(S + K - 1) div K < c + 1"
    using False by (simp add: div_less_iff_less_mult algebra_simps)
  then show ?thesis by simp
qed

lemma lookup_bounds:
  assumes valid: "\<forall>x\<in>set objects. unat x \<le> K" and tab: "K + 1 < 2 ^ 32"
  shows "\<exists>l. best_fit_lookup K objects = Inr l \<and>
           sum_list (map unat objects) \<le> K * l \<and> l \<le> length objects"
proof -
  let ?n = "length objects"
  from lookup_loop_inv2 [OF lookup_inv2_init, of objects ?n K] valid obtain bc where
    bc: "lookup_loop objects (lookup_table K ?n) = Inr bc" "lookup_inv2 K ?n objects bc"
    by auto
  let ?l = "sum_list (take K bc)"
  from bc(2) have len: "length bc = K + 1" and total: "sum_list bc = ?n"
    and cap: "capacity_sum K bc + sum_list (map unat objects) = ?n * K"
    by (simp_all add: lookup_inv2_def lookup_inv_def)
  from len have "bc = take K bc @ [bc ! K]"
    by (metis Suc_eq_plus1 lessI take_Suc_conv_app_nth take_all order_refl)
  then have "sum_list bc = ?l + bc ! K"
    by (metis sum_list.append sum_list.Cons sum_list.Nil add.right_neutral)
  with total have l: "?l + bc ! K = ?n" by simp
  have "bc ! K * K \<le> capacity_sum K bc"
    unfolding capacity_sum_def by (rule member_le_sum [of K "{..K}" "\<lambda>c. bc ! c * c"]) simp_all
  with cap have "bc ! K * K + sum_list (map unat objects) \<le> ?n * K"
    by simp
  also have "?n * K = ?l * K + bc ! K * K"
    unfolding l [symmetric] by (rule add_mult_distrib)
  finally have "sum_list (map unat objects) \<le> K * ?l"
    by (simp add: mult.commute)
  moreover from l have "?l \<le> ?n" by simp
  ultimately show ?thesis
    using bc(1) by (simp add: best_fit_lookup_eq [OF tab])
qed

section \<open>The nodes of the heap\<close>

lemma nodes_nth:
  assumes "m < length e"
  shows "set_mset (nodes e m) = {e ! j | j. 1 \<le> j \<and> j \<le> m}"
proof -
  let ?xs = "take m (drop 1 e)"
  from assms have len: "length ?xs = m" by simp
  have "set ?xs = {?xs ! i | i. i < m}"
    using len by (simp add: set_conv_nth)
  also have "\<dots> = {e ! Suc i | i. i < m}"
    using assms by (intro Collect_cong ex_cong1) auto
  also have "\<dots> = {e ! j | j. 1 \<le> j \<and> j \<le> m}"
  proof (intro Collect_cong iffI)
    fix v assume "\<exists>i. v = e ! Suc i \<and> i < m"
    then obtain i where "v = e ! Suc i" "i < m" by blast
    then have "v = e ! Suc i \<and> 1 \<le> Suc i \<and> Suc i \<le> m" by simp
    then show "\<exists>j. v = e ! j \<and> 1 \<le> j \<and> j \<le> m" by blast
  next
    fix v assume "\<exists>j. v = e ! j \<and> 1 \<le> j \<and> j \<le> m"
    then obtain j where j: "v = e ! j" "1 \<le> j" "j \<le> m" by blast
    then have "v = e ! Suc (j - 1) \<and> j - 1 < m" by simp
    then show "\<exists>i. v = e ! Suc i \<and> i < m" by blast
  qed
  finally show ?thesis by (simp add: nodes_def)
qed

lemma nodes_update:
  assumes "1 \<le> b" and "b \<le> m" and "m < length e"
  shows "nodes (e[b := v]) m = add_mset v (nodes e m - {#e ! b#})"
    and "e ! b \<in># nodes e m"
proof -
  let ?xs = "take m (drop 1 e)"
  from assms have b: "b - 1 < length ?xs" and nth: "?xs ! (b - 1) = e ! b"
    by simp_all
  from assms have "take m (drop 1 (e[b := v])) = ?xs[b - 1 := v]"
    by (simp add: drop_update_swap take_update_swap)
  with b nth show "nodes (e[b := v]) m = add_mset v (nodes e m - {#e ! b#})"
    by (simp add: nodes_def mset_update)
  from b nth show "e ! b \<in># nodes e m"
    unfolding nodes_def by (metis nth_mem set_mset_mset)
qed

lemma nodes_swap:
  assumes "1 \<le> p" "p \<le> m" "1 \<le> i" "i \<le> m" "m < length e"
  shows "nodes (e[p := e ! i, i := e ! p]) m = nodes e m"
proof -
  let ?xs = "take m (drop 1 e)"
  from assms have b: "p - 1 < length ?xs" "i - 1 < length ?xs"
    and nth: "?xs ! (p - 1) = e ! p" "?xs ! (i - 1) = e ! i"
    by simp_all
  from assms have "take m (drop 1 (e[p := e ! i, i := e ! p])) = ?xs[p - 1 := e ! i, i - 1 := e ! p]"
    by (simp add: drop_update_swap take_update_swap)
  also have "mset \<dots> = mset ?xs"
    using mset_swap [OF b(2,1)] nth by simp
  finally show ?thesis by (simp add: nodes_def)
qed

lemma nodes_push:
  assumes "m + 1 < length e"
  shows "nodes (e[m + 1 := v]) (m + 1) = add_mset v (nodes e m)"
proof -
  from assms have "take (Suc m) (drop 1 (e[Suc m := v])) = take m (drop 1 e) @ [v]"
    by (simp add: drop_update_swap take_Suc_conv_app_nth)
  then show ?thesis by (simp add: nodes_def)
qed

lemma nodes_sift_up:
  "i \<le> m \<Longrightarrow> m < length e \<Longrightarrow> nodes (sift_up e i) m = nodes e m"
proof (induction e i rule: sift_up.induct)
  case (1 e i)
  show ?case
  proof (cases "1 < i \<and> e ! (i div 2) < e ! i")
    case True
    let ?e = "e[i div 2 := e ! i, i := e ! (i div 2)]"
    from True have "sift_up e i = sift_up ?e (i div 2)"
      by (subst sift_up.simps) simp
    moreover from True "1.prems" have "nodes (sift_up ?e (i div 2)) m = nodes ?e m"
      by (intro "1.IH") simp_all
    moreover from True "1.prems" have "nodes ?e m = nodes e m"
      by (intro nodes_swap) auto
    ultimately show ?thesis by simp
  next
    case False
    then have "sift_up e i = e"
      by (subst sift_up.simps) auto
    then show ?thesis by simp
  qed
qed

lemma heap_root_max:
  assumes "is_heap e m"
  shows "1 \<le> j \<Longrightarrow> j \<le> m \<Longrightarrow> e ! j \<le> e ! 1"
proof (induction j rule: less_induct)
  case (less j)
  show ?case
  proof (cases "j = 1")
    case True
    then show ?thesis by simp
  next
    case False
    with less.prems have j: "2 \<le> j" "j div 2 < j" "1 \<le> j div 2" "j div 2 \<le> m"
      by auto
    with assms less.prems have "e ! j \<le> e ! (j div 2)"
      by (simp add: is_heap_def)
    also from less.IH [OF j(2,3,4)] have "e ! (j div 2) \<le> e ! 1" .
    finally show ?thesis .
  qed
qed

lemma nodes_root_max:
  assumes "is_heap e m" and "m < length e" and "l \<in># nodes e m"
  shows "l \<le> e ! 1"
  using assms(3) nodes_nth [OF assms(2)] heap_root_max [OF assms(1)] by auto

lemma reheap_root:
  assumes heap: "is_heap e m" and m: "1 \<le> m" "m < length e" and v: "e ! 1 \<le> v"
  shows "sift_down (sift_up (e[1 := v]) 1) m 1 = e[1 := v]"
proof -
  let ?e = "e[1 := v]"
  have up: "sift_up ?e 1 = ?e"
    by (subst sift_up.simps) simp
  have c: "?e ! c \<le> ?e ! 1" if "c = 2 \<or> c = 3" "c \<le> m" for c
  proof -
    from that heap have "e ! c \<le> e ! 1"
      by (intro heap_root_max) auto
    with that m v show ?thesis by auto
  qed
  have "larger_child ?e m 1 = 1"
    using c [of 2] c [of 3] by (auto simp: larger_child_def Let_def not_less)
  then have "sift_down ?e m 1 = ?e"
    by (subst sift_down.simps) simp
  with up show ?thesis by simp
qed

lemma bfs_root:
  assumes heap: "is_heap e nb" and nb: "1 \<le> nb"
    and fits: "unat (e ! 1 + x) \<le> K" and x: "0 < unat x" "unat x \<le> K"
    and bound: "\<And>j. 1 \<le> j \<Longrightarrow> j \<le> nb \<Longrightarrow> unat (e ! j) \<le> K" and K: "2 * K < 2 ^ 32"
  shows "bfs K e x nb [1] (n, 0) = Some (1, e ! 1 + x)"
proof -
  let ?t = "e ! 1 + x"
  have nw: "unat (e ! j + x) = unat (e ! j) + unat x" if "1 \<le> j" "j \<le> nb" for j
    using bound [OF that] x(2) K by (rule unat_add_no_wrap)
  from nw [of 1] nb x(1) have pos: "0 < ?t"
    by (intro word_pos_add) simp_all
  have "\<forall>c \<in> set (children nb 1). 1 \<le> c \<and> c \<le> nb"
    using set_children [of _ nb 1] by auto
  from bfs_result [OF this, of K e x "(1, ?t)"] obtain bb bc where
    r: "bfs K e x nb (children nb 1) (1, ?t) = Some (bb, bc)"
      "(bb, bc) = (1, ?t) \<or> (1 \<le> bb \<and> bb \<le> nb \<and> bc = e ! bb + x \<and> ?t < bc)"
    by auto
  have "\<not> (1 \<le> bb \<and> bb \<le> nb \<and> bc = e ! bb + x \<and> ?t < bc)"
  proof
    assume a: "1 \<le> bb \<and> bb \<le> nb \<and> bc = e ! bb + x \<and> ?t < bc"
    with heap have "e ! bb \<le> e ! 1"
      by (intro heap_root_max) auto
    with a nw [of bb] nw [of 1] nb have "e ! bb + x \<le> ?t"
      by (simp add: word_le_nat_alt)
    with a show False by (auto dest: leD)
  qed
  with r have "bfs K e x nb (children nb 1) (1, ?t) = Some (1, ?t)"
    by auto
  with fits pos show ?thesis
    by (simp add: bfs_unfold)
qed

lemma size_nodes: "m < length e \<Longrightarrow> size (nodes e m) = m"
  by (simp add: nodes_def)

lemma root_in_nodes: "1 \<le> m \<Longrightarrow> m < length e \<Longrightarrow> e ! 1 \<in># nodes e m"
  using nodes_nth [of m e] by auto

lemma bfh_step_valid:
  assumes inv: "hinv2 K n ys s" and x: "0 < unat x" "unat x \<le> K" and K: "2 * K < 2 ^ 32"
    and k: "length ys < n"
  obtains
    (update) s' where "num_bins s \<noteq> 0" "unat (elements (heap s) ! 1) + unat x \<le> K"
      "bfh_step K n x s = Some s'" "hinv2 K n (ys @ [x]) s'"
      "num_bins s' = num_bins s" "elements (heap s') ! 1 = elements (heap s) ! 1 + x"
  | (insert) s' where "num_bins s = 0 \<or> K < unat (elements (heap s) ! 1) + unat x"
      "bfh_step K n x s = Some s'" "hinv2 K n (ys @ [x]) s'"
      "num_bins s' = num_bins s + 1" "x \<le> elements (heap s') ! 1"
      "num_bins s \<noteq> 0 \<longrightarrow> elements (heap s) ! 1 \<le> elements (heap s') ! 1"
proof -
  let ?e = "elements (heap s)"
  let ?nb = "num_bins s"
  from inv have h: "hinv n (length ys) s"
    and bound: "\<forall>l \<in># nodes ?e ?nb. unat l \<le> K"
    and sum: "(\<Sum>l \<in># nodes ?e ?nb. unat l) = sum_list (map unat ys)"
    by (simp_all add: hinv2_def)
  from h have len: "length ?e = n + 1" and sz: "heap_size (heap s) = ?nb"
    and nb: "?nb \<le> length ys" and heap: "is_heap ?e ?nb"
    by (simp_all add: hinv_def)
  from nb k len have nbl: "?nb < length ?e" "?nb + 1 < length ?e"
    by simp_all
  have bj: "unat (?e ! j) \<le> K" if "1 \<le> j" "j \<le> ?nb" for j
    using that bound nodes_nth [OF nbl(1)] by auto
  have root: "bfs K ?e x ?nb [1] (n, 0) = Some (1, ?e ! 1 + x)"
    if "?nb \<noteq> 0" "unat (?e ! 1 + x) \<le> K"
    using that heap x bj K by (intro bfs_root) simp_all
  have nw: "unat (?e ! 1 + x) = unat (?e ! 1) + unat x" if "?nb \<noteq> 0"
    using that bj [of 1] x(2) K by (intro unat_add_no_wrap [of _ K]) simp_all
  from bfh_step_hinv [OF h k, of K x] obtain s' where
    s': "bfh_step K n x s = Some s'" "hinv n (Suc (length ys)) s'"
    by blast
  from h k show thesis
  proof (cases rule: bfh_step_cases [where K = K and x = x])
    case (update b bc)
    from root [OF update(3,4)] update(5) have b1: "b = 1" by simp
    let ?v = "?e ! 1 + x"
    from nw [OF update(3)] have le: "?e ! 1 \<le> ?v"
      by (simp add: word_le_nat_alt)
    from update(3) have nb1: "1 \<le> ?nb" by simp
    from update(6) s'(1) b1 sz reheap_root [OF heap nb1 nbl(1) le]
    have eq: "s' = s\<lparr>heap := (heap s)\<lparr>elements := ?e[1 := ?v]\<rparr>\<rparr>"
      by (simp add: reheap_down_def)
    then have e': "elements (heap s') = ?e[1 := ?v]" and n': "num_bins s' = ?nb"
      by simp_all
    from nodes_update(1) [OF _ nb1 nbl(1), of ?v]
    have nd: "nodes (elements (heap s')) (num_bins s') = add_mset ?v (nodes ?e ?nb - {#?e ! 1#})"
      by (simp add: e' n')
    from nodes_update(2) [OF _ nb1 nbl(1)]
    have rin: "?e ! 1 \<in># nodes ?e ?nb"
      by simp
    from rin have split: "nodes ?e ?nb = add_mset (?e ! 1) (nodes ?e ?nb - {#?e ! 1#})"
      by simp
    have b': "\<forall>l \<in># nodes (elements (heap s')) (num_bins s'). unat l \<le> K"
      using bound update(4) nd by (auto dest: in_diffD)
    have "(\<Sum>l \<in># nodes ?e ?nb. unat l) =
        unat (?e ! 1) + (\<Sum>l \<in># nodes ?e ?nb - {#?e ! 1#}. unat l)"
      by (subst split) simp
    with sum nd nw [OF update(3)]
    have s2: "(\<Sum>l \<in># nodes (elements (heap s')) (num_bins s'). unat l) = sum_list (map unat (ys @ [x]))"
      by simp
    from s'(2) b' s2 have "hinv2 K n (ys @ [x]) s'"
      by (simp add: hinv2_def)
    moreover from nbl e' have "elements (heap s') ! 1 = ?v"
      using nb1 by simp
    moreover from update(4) nw [OF update(3)] have "unat (?e ! 1) + unat x \<le> K"
      by simp
    ultimately show thesis
      using update(3) s'(1) n' by (intro that(1) [of s']) simp_all
  next
    case insert
    have c: "?nb = 0 \<or> K < unat (?e ! 1) + unat x"
    proof (rule ccontr)
      assume a: "\<not> (?nb = 0 \<or> K < unat (?e ! 1) + unat x)"
      then have nz: "?nb \<noteq> 0" and fit: "unat (?e ! 1 + x) \<le> K"
        using nw by auto
      with insert(1) root [OF nz fit] have "?e ! 1 + x = 0"
        by auto
      with nw [OF nz] x(1) show False by simp
    qed
    from insert(2) s'(1) have eq: "s' = s\<lparr>heap := push (heap s) x, num_bins := ?nb + 1\<rparr>"
      by simp
    then have e': "elements (heap s') = sift_up (?e[?nb + 1 := x]) (?nb + 1)"
      and n': "num_bins s' = ?nb + 1"
      by (simp_all add: push_def Let_def sz)
    from nbl have "nodes (elements (heap s')) (num_bins s') = nodes (?e[?nb + 1 := x]) (?nb + 1)"
      unfolding e' n' by (intro nodes_sift_up) simp_all
    with nodes_push [OF nbl(2)]
    have nd: "nodes (elements (heap s')) (num_bins s') = add_mset x (nodes ?e ?nb)"
      by simp
    with bound x(2) sum s'(2) have "hinv2 K n (ys @ [x]) s'"
      by (simp add: hinv2_def)
    moreover from s'(2) k have h': "is_heap (elements (heap s')) (num_bins s')"
      and l': "num_bins s' < length (elements (heap s'))"
      by (simp_all add: hinv_def)
    from nodes_root_max [OF h' l'] nd have "x \<le> elements (heap s') ! 1"
      by simp
    moreover have "?e ! 1 \<le> elements (heap s') ! 1" if "?nb \<noteq> 0"
    proof -
      from that nbl have "?e ! 1 \<in># nodes ?e ?nb"
        by (intro root_in_nodes) simp_all
      with nodes_root_max [OF h' l'] nd show ?thesis by simp
    qed
    ultimately show thesis
      using c s'(1) n' by (intro that(2) [of s']) simp_all
  qed
qed

section \<open>best\_fit and best\_fit\_lookup side by side\<close>

lemma sim_step:
  assumes bfi: "bf_inv K n ys s" and lki: "lookup_inv K n (length ys) bc"
    and sim: "sim K ms ys s bc"
    and x: "0 < unat x" "ms \<le> unat x" "unat x \<le> K" and K: "2 * K < 2 ^ 32"
    and k: "length ys < n"
    and bstep: "bf_step K (limit_capacity K ms) n (length ys) x s = Inr s'"
    and lstep: "lookup_step x bc = Inr bc'"
  shows "sim K ms (ys @ [x]) s' bc'"
proof -
  let ?L = "open_loads s"
  let ?d = "unat x"
  let ?lim = "limit_capacity K ms"
  from bfi have len: "length (bins s) = n"
    and bound: "\<forall>l \<in># ?L. unat l \<le> K"
    and first: "ys = [] \<longrightarrow> ?L = {#0#}"
    and pos: "ys \<noteq> [] \<longrightarrow> 0 \<notin># ?L"
    by (simp_all add: bf_inv_def)
  from lki have lbc: "length bc = K + 1" by (simp add: lookup_inv_def)
  from sim have cnt: "\<And>c. ms \<le> c \<Longrightarrow> c < K \<Longrightarrow> bc ! c = size {#l \<in># ?L. unat l = K - c#}"
    and used: "sum_list (take K bc) + (if ys = [] then 1 else 0) = num_open_bins s + num_full_bins s"
    by (simp_all add: sim_def)
  from lki k x(3) obtain r where r: "?d \<le> r" "r \<le> K" "bc ! r \<noteq> 0"
    "\<forall>c. ?d \<le> c \<and> c < r \<longrightarrow> bc ! c = 0"
    "lookup_step x bc = Inr (move_bin bc r ?d)"
    by (rule lookup_step_result)
  from r(5) lstep have bc': "bc' = move_bin bc r ?d" by simp
  from lbc r(2) have rl: "r < length bc" by simp
  note nth' = nth_move_bin [OF rl x(1) r(1), folded bc']
  from used_move_bin [OF lbc r(2,3) x(1) r(1)]
  have used': "sum_list (take K bc') = sum_list (take K bc) + (if r = K then 1 else 0)"
    by (simp add: bc')
  from x K have lim: "unat ?lim = K - ms"
    by (intro unat_limit_capacity) simp_all
  have nowrap: "unat (l + x) = unat l + ?d" if "l \<in># ?L" for l
    using that bound x(3) K by (intro unat_add_no_wrap [of _ K]) auto
  have fits0: "unat (0 + x) \<le> K \<and> 0 < 0 + x"
    using x by (simp add: word_less_nat_alt)
  have counted: "\<exists>l \<in># ?L. unat l = K - r \<and> unat (l + x) \<le> K \<and> 0 < l + x" if "r < K"
  proof -
    from that r(1) x(2) cnt [of r] r(3) have "size {#l \<in># ?L. unat l = K - r#} \<noteq> 0"
      by simp
    then obtain l where l: "l \<in># ?L" "unat l = K - r"
      by auto
    from nowrap [OF l(1)] l(2) r(1,2) have "unat (l + x) \<le> K"
      by simp
    moreover from nowrap [OF l(1)] x(1) have "0 < l + x"
      by (rule word_pos_add)
    ultimately show ?thesis using l by blast
  qed
  have found: "r = K - unat l \<and> unat l + ?d \<le> K \<and> (ys \<noteq> [] \<longrightarrow> r < K) \<and> (ys = [] \<longrightarrow> r = K)"
    if lin: "l \<in># ?L" and fit: "unat (l + x) \<le> K"
      and best: "\<forall>l' \<in># ?L. unat (l' + x) \<le> K \<longrightarrow> l' + x \<le> l + x" for l
  proof -
    let ?a = "unat l"
    from nowrap [OF lin] fit have a: "?a + ?d \<le> K" by simp
    have "r \<le> K - ?a"
    proof (rule ccontr)
      assume "\<not> r \<le> K - ?a"
      with a r(2) have c0: "?d \<le> K - ?a" "K - ?a < r" "K - ?a < K" "ms \<le> K - ?a"
        using x(2) by simp_all
      with r(4) have "bc ! (K - ?a) = 0" by simp
      with cnt [OF c0(4,3)] a have "size {#l' \<in># ?L. unat l' = ?a#} = 0"
        by simp
      with lin show False
        by auto
    qed
    moreover have "K - ?a \<le> r"
    proof (rule ccontr)
      assume n: "\<not> K - ?a \<le> r"
      with r(2) have "r < K" by simp
      from counted [OF this] obtain l' where l': "l' \<in># ?L" "unat l' = K - r" "unat (l' + x) \<le> K"
        by blast
      with best have "l' + x \<le> l + x" by simp
      with nowrap [OF l'(1)] nowrap [OF lin] have "unat l' \<le> ?a"
        by (simp add: word_le_nat_alt)
      with l'(2) n show False by simp
    qed
    ultimately have eq: "r = K - ?a" by simp
    moreover have "r < K" if "ys \<noteq> []"
    proof -
      from that pos lin have "l \<noteq> 0" by auto
      then have "0 < ?a" by (simp add: unat_gt_0)
      with eq a x(1) show ?thesis by simp
    qed
    moreover have "r = K" if "ys = []"
      using that first lin eq by simp
    ultimately show ?thesis using a by simp
  qed
  from bstep len show ?thesis
  proof (cases rule: bf_step_open_loads)
    case (keep l M)
    from keep(1) have lin: "l \<in># ?L" by simp
    from found [OF lin keep(3,6)]
    have f: "r = K - unat l" "unat l + ?d \<le> K" "ys \<noteq> [] \<longrightarrow> r < K" "ys = [] \<longrightarrow> r = K"
      by blast+
    from keep(5) lim nowrap [OF lin] have small: "unat l + ?d \<le> K - ms"
      by (simp add: word_less_nat_alt)
    have "bc' ! c = size {#l' \<in># open_loads s'. unat l' = K - c#}" if c: "ms \<le> c" "c < K" for c
    proof -
      from cnt [OF c] keep(1) have "bc ! c = size {#l' \<in># M. unat l' = K - c#} + (if unat l = K - c then 1 else 0)"
        by simp
      moreover from keep(2) nowrap [OF lin]
      have "size {#l' \<in># open_loads s'. unat l' = K - c#} =
          size {#l' \<in># M. unat l' = K - c#} + (if unat l + ?d = K - c then 1 else 0)"
        by simp
      moreover from c f(1,2) x(1) have "c = r \<longleftrightarrow> unat l = K - c" "c = r - ?d \<longleftrightarrow> unat l + ?d = K - c"
        by auto
      ultimately show ?thesis
        using x(1) by (auto simp: nth')
    qed
    moreover from used used' f(3,4) keep(7,8)
    have "sum_list (take K bc') + (if ys @ [x] = [] then 1 else 0) = num_open_bins s' + num_full_bins s'"
      by (cases "ys = []") simp_all
    ultimately show ?thesis
      by (simp add: sim_def)
  next
    case (retire l M)
    from retire(1) have lin: "l \<in># ?L" by simp
    from found [OF lin retire(3,6)]
    have f: "r = K - unat l" "unat l + ?d \<le> K" "ys \<noteq> [] \<longrightarrow> r < K" "ys = [] \<longrightarrow> r = K"
      by blast+
    from retire(5) lim nowrap [OF lin] have big: "K - ms < unat l + ?d"
      by (simp add: word_less_nat_alt)
    have "bc' ! c = size {#l' \<in># open_loads s'. unat l' = K - c#}" if c: "ms \<le> c" "c < K" for c
    proof -
      from cnt [OF c] retire(1) have "bc ! c = size {#l' \<in># M. unat l' = K - c#} + (if unat l = K - c then 1 else 0)"
        by simp
      moreover from retire(2)
      have "size {#l' \<in># open_loads s'. unat l' = K - c#} = size {#l' \<in># M. unat l' = K - c#}"
        by simp
      moreover from c f(1,2) x(1) big have "c = r \<longleftrightarrow> unat l = K - c" "c \<noteq> r - ?d"
        by auto
      ultimately show ?thesis
        by (auto simp: nth')
    qed
    moreover from used used' f(3,4) retire(7,8)
    have "sum_list (take K bc') + (if ys @ [x] = [] then 1 else 0) = num_open_bins s' + num_full_bins s'"
      by (cases "ys = []") auto
    ultimately show ?thesis
      by (simp add: sim_def)
  next
    case new
    have ne: "ys \<noteq> []"
    proof
      assume "ys = []"
      with first new(2) fits0 show False by simp
    qed
    have rK: "r = K"
    proof (rule ccontr)
      assume "r \<noteq> K"
      with r(2) have "r < K" by simp
      from counted [OF this] new(2) show False by blast
    qed
    have "bc' ! c = size {#l' \<in># open_loads s'. unat l' = K - c#}" if c: "ms \<le> c" "c < K" for c
    proof -
      from new(1) have "size {#l' \<in># open_loads s'. unat l' = K - c#} =
          size {#l' \<in># ?L. unat l' = K - c#} + (if ?d = K - c then 1 else 0)"
        by simp
      moreover from c x rK have "c \<noteq> r" "c = r - ?d \<longleftrightarrow> ?d = K - c"
        by auto
      ultimately show ?thesis
        using cnt [OF c] by (auto simp: nth')
    qed
    moreover from used used' rK ne new(3,4)
    have "sum_list (take K bc') + (if ys @ [x] = [] then 1 else 0) = num_open_bins s' + num_full_bins s'"
      by simp
    ultimately show ?thesis
      by (simp add: sim_def)
  qed
qed

lemma sim_init: "0 < n \<Longrightarrow> sim K ms [] (bf_init n) (lookup_table K n)"
  by (cases n) (simp_all add: sim_def bf_init_def open_loads_def nth_lookup_table take_lookup_table)

lemma sim_loop:
  assumes "bf_inv K n ys s" and "lookup_inv K n (length ys) bc" and "sim K ms ys s bc"
    and "\<forall>x\<in>set xs. 0 < unat x \<and> ms \<le> unat x \<and> unat x \<le> K" and K: "2 * K < 2 ^ 32"
    and "length ys + length xs \<le> n"
  shows "\<exists>s' bc'. bf_loop K (limit_capacity K ms) n (length ys) xs s = Inr s' \<and>
           lookup_loop xs bc = Inr bc' \<and> sim K ms (ys @ xs) s' bc'"
  using assms(1-4,6)
proof (induction xs arbitrary: ys s bc)
  case Nil
  then show ?case by simp
next
  case (Cons x xs)
  let ?lim = "limit_capacity K ms"
  from Cons.prems have x: "0 < unat x" "ms \<le> unat x" "unat x \<le> K" and k: "length ys < n"
    by simp_all
  from bf_inv_step [OF Cons.prems(1) x(1,3) K k, of ?lim] obtain t where
    t: "bf_step K ?lim n (length ys) x s = Inr t" "bf_inv K n (ys @ [x]) t"
    by blast
  from lookup_step_inv [OF Cons.prems(2) k x(3)] obtain b where
    b: "lookup_step x bc = Inr b" "lookup_inv K n (Suc (length ys)) b"
    by blast
  from sim_step [OF Cons.prems(1,2,3) x K k t(1) b(1)] have s: "sim K ms (ys @ [x]) t b" .
  from Cons.IH [OF t(2) _ s] b(2) Cons.prems(4,5) obtain s' bc' where
    "bf_loop K ?lim n (length (ys @ [x])) xs t = Inr s'" "lookup_loop xs b = Inr bc'"
    "sim K ms ((ys @ [x]) @ xs) s' bc'"
    by auto
  with t(1) b(1) show ?case by simp
qed

lemma lookup_eq_best_fit:
  assumes valid: "\<forall>x\<in>set objects. 0 < unat x \<and> min_size \<le> unat x \<and> unat x \<le> K"
    and K: "2 * K < 2 ^ 32" and ne: "objects \<noteq> []"
  shows "\<exists>a p. best_fit K min_size objects = Inr (a, p) \<and> best_fit_lookup K objects = Inr a"
proof -
  let ?n = "length objects"
  from ne have "bf_inv K ?n [] (bf_init ?n)" "sim K min_size [] (bf_init ?n) (lookup_table K ?n)"
    by (simp_all add: bf_inv_init sim_init)
  from sim_loop [OF this(1) _ this(2), of objects] lookup_inv_init [of K ?n] valid K
  obtain s bc where r: "bf_loop K (limit_capacity K min_size) ?n 0 objects (bf_init ?n) = Inr s"
    "lookup_loop objects (lookup_table K ?n) = Inr bc" "sim K min_size objects s bc"
    by auto
  from r(3) ne have "sum_list (take K bc) = num_open_bins s + num_full_bins s"
    by (simp add: sim_def)
  moreover from K have "K + 1 < 2 ^ 32" by simp
  ultimately show ?thesis
    using r(1,2) by (simp add: best_fit_def best_fit_lookup_eq)
qed

lemma hsim_step:
  assumes hi: "hinv2 K n ys s" and lki: "lookup_inv K n (length ys) bc" and hs: "hsim K s bc"
    and x: "0 < unat x" "unat x \<le> K" and K: "2 * K < 2 ^ 32" and k: "length ys < n"
  shows "\<exists>s' bc'. bfh_step K n x s = Some s' \<and> hinv2 K n (ys @ [x]) s' \<and>
           lookup_step x bc = Inr bc' \<and> lookup_inv K n (Suc (length ys)) bc' \<and> hsim K s' bc'"
proof -
  let ?d = "unat x"
  let ?M = "unat (elements (heap s) ! 1)"
  let ?L = "sum_list (take K bc)"
  from lki have lbc: "length bc = K + 1" by (simp add: lookup_inv_def)
  from lookup_step_inv [OF lki k x(2)] obtain bc' where
    bc': "lookup_step x bc = Inr bc'" "lookup_inv K n (Suc (length ys)) bc'"
    by blast
  from lki k x(2) obtain r where r: "?d \<le> r" "r \<le> K" "bc ! r \<noteq> 0"
    "\<forall>c. ?d \<le> c \<and> c < r \<longrightarrow> bc ! c = 0"
    "lookup_step x bc = Inr (move_bin bc r ?d)"
    by (rule lookup_step_result)
  from r(5) bc'(1) have eq: "bc' = move_bin bc r ?d" by simp
  from lbc r(2) have rl: "r < length bc" by simp
  note nth' = nth_move_bin [OF rl x(1) r(1), folded eq]
  from used_move_bin [OF lbc r(2,3) x(1) r(1)]
  have used': "sum_list (take K bc') = ?L + (if r = K then 1 else 0)"
    by (simp add: eq)
  from hs have le: "?L \<le> num_bins s"
    and tight: "?L = num_bins s \<Longrightarrow> num_bins s \<noteq> 0 \<Longrightarrow> \<exists>c. K - ?M \<le> c \<and> c < K \<and> bc ! c \<noteq> 0"
    by (auto simp: hsim_def)
  have new_bin: "K - ?d < K \<and> bc' ! (K - ?d) \<noteq> 0" if "r = K"
    using that x by (simp add: nth')
  from hi x K k show ?thesis
  proof (cases rule: bfh_step_valid)
    case (update s')
    from update(2) K have "unat (elements (heap s) ! 1 + x) = ?M + ?d"
      by (intro unat_add_lem [THEN iffD1]) simp
    then have M': "unat (elements (heap s') ! 1) = ?M + ?d"
      by (simp only: update(6))
    have "hsim K s' bc'"
    proof (cases "r = K")
      case True
      have "?L \<noteq> num_bins s"
      proof
        assume "?L = num_bins s"
        from tight [OF this update(1)] obtain c where c: "K - ?M \<le> c" "c < K" "bc ! c \<noteq> 0"
          by blast
        with update(2) True have "?d \<le> c \<and> c < r" by simp
        with r(4) c(3) show False by simp
      qed
      with le used' True have "sum_list (take K bc') \<le> num_bins s'"
        by (simp add: update(5))
      moreover from new_bin [OF True] M'
      have "\<exists>c. K - unat (elements (heap s') ! 1) \<le> c \<and> c < K \<and> bc' ! c \<noteq> 0"
        by (intro exI [of _ "K - ?d"]) simp
      ultimately show ?thesis by (simp add: hsim_def)
    next
      case False
      with used' le have l': "sum_list (take K bc') = ?L" "sum_list (take K bc') \<le> num_bins s'"
        by (simp_all add: update(5))
      have "\<exists>c. K - unat (elements (heap s') ! 1) \<le> c \<and> c < K \<and> bc' ! c \<noteq> 0"
        if "sum_list (take K bc') = num_bins s'"
      proof -
        from that l'(1) update(5) have "?L = num_bins s" by simp
        from tight [OF this update(1)] obtain c where c: "K - ?M \<le> c" "c < K" "bc ! c \<noteq> 0"
          by blast
        from c update(2) have "?d \<le> c" by simp
        with r(4) c(3) have rc: "r \<le> c"
          by (metis not_le_imp_less)
        show ?thesis
        proof (cases "c = r")
          case True
          with c r(1) x(1) have a: "r - ?d \<noteq> r" "K - (?M + ?d) \<le> r - ?d" "r - ?d < K"
            by arith+
          from a(1) have "bc' ! (r - ?d) \<noteq> 0"
            by (simp add: nth')
          with a(2,3) M' have "K - unat (elements (heap s') ! 1) \<le> r - ?d \<and> r - ?d < K \<and>
              bc' ! (r - ?d) \<noteq> 0"
            by simp
          then show ?thesis by blast
        next
          case False
          from c(1) have "K - (?M + ?d) \<le> c"
            by arith
          moreover from False c(3) have "bc' ! c \<noteq> 0"
            by (simp add: nth')
          ultimately have "K - unat (elements (heap s') ! 1) \<le> c \<and> c < K \<and> bc' ! c \<noteq> 0"
            using c(2) M' by simp
          then show ?thesis by blast
        qed
      qed
      with l'(2) show ?thesis by (auto simp: hsim_def)
    qed
    with update(3,4) bc' show ?thesis by blast
  next
    case (insert s')
    from insert(5) have dM: "?d \<le> unat (elements (heap s') ! 1)"
      by (simp add: word_le_nat_alt)
    have "hsim K s' bc'"
    proof (cases "r = K")
      case True
      with used' le have "sum_list (take K bc') \<le> num_bins s'"
        by (simp add: insert(4))
      moreover from new_bin [OF True] dM
      have "\<exists>c. K - unat (elements (heap s') ! 1) \<le> c \<and> c < K \<and> bc' ! c \<noteq> 0"
        by (intro exI [of _ "K - ?d"]) simp
      ultimately show ?thesis by (simp add: hsim_def)
    next
      case False
      with used' le have "sum_list (take K bc') < num_bins s'"
        by (simp add: insert(4))
      then show ?thesis by (simp add: hsim_def)
    qed
    with insert(2,3) bc' show ?thesis by blast
  qed
qed

lemma hinv2_init: "hinv2 K n [] (bfh_init n)"
  by (simp add: hinv2_def hinv_init) (simp add: bfh_init_def nodes_def)

lemma hsim_init: "hsim K (bfh_init n) (lookup_table K n)"
  by (simp add: hsim_def bfh_init_def take_lookup_table)

lemma hsim_loop:
  assumes "hinv2 K n ys s" and "lookup_inv K n (length ys) bc" and "hsim K s bc"
    and "\<forall>x\<in>set xs. 0 < unat x \<and> unat x \<le> K" and K: "2 * K < 2 ^ 32"
    and "length ys + length xs \<le> n"
  shows "\<exists>s' bc'. bfh_loop K n xs s = Some s' \<and> hinv2 K n (ys @ xs) s' \<and>
           lookup_loop xs bc = Inr bc' \<and> hsim K s' bc'"
  using assms(1-4,6)
proof (induction xs arbitrary: ys s bc)
  case Nil
  then show ?case by simp
next
  case (Cons x xs)
  from Cons.prems have x: "0 < unat x" "unat x \<le> K" and k: "length ys < n"
    by simp_all
  from hsim_step [OF Cons.prems(1,2,3) x K k] obtain t b where
    t: "bfh_step K n x s = Some t" "hinv2 K n (ys @ [x]) t"
      "lookup_step x bc = Inr b" "lookup_inv K n (Suc (length ys)) b" "hsim K t b"
    by blast
  from Cons.IH [OF t(2) _ t(5)] t(4) Cons.prems(4,5) obtain s' bc' where
    "bfh_loop K n xs t = Some s'" "hinv2 K n ((ys @ [x]) @ xs) s'"
    "lookup_loop xs b = Inr bc'" "hsim K s' bc'"
    by auto
  with t(1,3) show ?case by simp
qed

lemma sum_mset_bound:
  "\<forall>l \<in># M. f l \<le> (K :: nat) \<Longrightarrow> (\<Sum>l \<in># M. f l) \<le> K * size M"
  by (induction M) (auto simp: algebra_simps)

lemma heap_results:
  assumes valid: "\<forall>x\<in>set objects. 0 < unat x \<and> unat x \<le> K" and K: "2 * K < 2 ^ 32"
  shows "\<exists>h l. best_fit_heap K objects = Some h \<and> best_fit_lookup K objects = Inr l \<and>
           l \<le> h \<and> sum_list (map unat objects) \<le> K * h \<and> h \<le> length objects"
proof -
  let ?n = "length objects"
  from hsim_loop [of K ?n "[]" "bfh_init ?n" "lookup_table K ?n" objects]
    hinv2_init [of K ?n] hsim_init [of K ?n] lookup_inv_init [of K ?n] valid K
  obtain s bc where r: "bfh_loop K ?n objects (bfh_init ?n) = Some s" "hinv2 K ?n objects s"
    "lookup_loop objects (lookup_table K ?n) = Inr bc" "hsim K s bc"
    by auto
  let ?N = "nodes (elements (heap s)) (num_bins s)"
  from r(2) have nb: "num_bins s \<le> ?n" and len: "length (elements (heap s)) = ?n + 1"
    and bound: "\<forall>l \<in># ?N. unat l \<le> K"
    and sum: "(\<Sum>l \<in># ?N. unat l) = sum_list (map unat objects)"
    by (simp_all add: hinv2_def hinv_def)
  from nb len have "size ?N = num_bins s"
    by (intro size_nodes) simp
  with sum_mset_bound [OF bound] sum have "sum_list (map unat objects) \<le> K * num_bins s"
    by simp
  moreover from r(4) have "sum_list (take K bc) \<le> num_bins s"
    by (simp add: hsim_def)
  moreover from K have "K + 1 < 2 ^ 32" by simp
  ultimately show ?thesis
    using r(1,3) nb by (simp add: best_fit_heap_def best_fit_lookup_eq)
qed

section \<open>The number of bins\<close>

lemma lower_bound_le: "sum_list (map unat objects) \<le> K * c \<Longrightarrow> lower_bound K objects \<le> c"
  unfolding lower_bound_def by (rule ceil_div_le)

lemma size_open_loads: "num_open_bins s \<le> length (bins s) \<Longrightarrow> size (open_loads s) = num_open_bins s"
  by (simp add: open_loads_def)

lemma best_fit_bounds:
  assumes valid: "\<forall>x\<in>set objects. 0 < unat x \<and> unat x \<le> K" and K: "2 * K < 2 ^ 32"
    and ne: "objects \<noteq> []"
  shows "\<exists>a p. best_fit K min_size objects = Inr (a, p) \<and>
           sum_list (map unat objects) \<le> K * a \<and> a \<le> length objects"
proof -
  let ?n = "length objects"
  from bf_run_inv [OF valid K ne, of min_size ?n] obtain s where
    s: "bf_run K min_size objects ?n = Inr s" "bf_inv K ?n objects s"
    by auto
  from s(2) have len: "length (bins s) = ?n" and le: "num_open_bins s \<le> ?n"
    and bound: "\<forall>l \<in># open_loads s. unat l \<le> K"
    and cnt: "num_open_bins s + num_full_bins s \<le> max ?n 1"
    and sum: "sum_list (map unat objects) \<le> K * num_full_bins s + (\<Sum>l \<in># open_loads s. unat l)"
    by (simp_all add: bf_inv_def)
  from sum_mset_bound [OF bound] size_open_loads [of s] len le
  have "(\<Sum>l \<in># open_loads s. unat l) \<le> K * num_open_bins s"
    by simp
  with sum have "sum_list (map unat objects) \<le> K * (num_open_bins s + num_full_bins s)"
    by (simp add: algebra_simps)
  moreover from cnt ne have "num_open_bins s + num_full_bins s \<le> ?n"
    by (cases objects) auto
  ultimately show ?thesis
    using s(1) by (simp add: best_fit_run)
qed

text \<open>
  C2, as amended. On an instance whose objects are positive and at most \<open>K\<close>, each
  heuristic returns a number of bins between \<open>lower_bound K objects\<close>, the sum of the sizes
  over \<open>K\<close> rounded up, and the number of objects: \<^verbatim>\<open>best_fit_lookup\<close> when
  \<open>K + 1 < 2 ^ 32\<close>, so that the number of entries \<^verbatim>\<open>K+1\<close> of its table does not wrap
  around; \<^verbatim>\<open>best_fit_heap\<close> when \<open>2 * K < 2 ^ 32\<close>, so that no sum of a load and a size
  wraps around; \<^verbatim>\<open>best_fit\<close> when moreover there is at least one object.
\<close>

theorem bin_count_bounds:
  assumes valid: "\<forall>x\<in>set objects. 0 < unat x \<and> unat x \<le> K"
  shows "(K + 1 < 2 ^ 32 \<longrightarrow>
            (\<exists>l. best_fit_lookup K objects = Inr l \<and>
               lower_bound K objects \<le> l \<and> l \<le> length objects)) \<and>
         (2 * K < 2 ^ 32 \<longrightarrow>
            (\<exists>h. best_fit_heap K objects = Some h \<and>
               lower_bound K objects \<le> h \<and> h \<le> length objects)) \<and>
         (2 * K < 2 ^ 32 \<and> objects \<noteq> [] \<longrightarrow>
            (\<exists>a p. best_fit K min_size objects = Inr (a, p) \<and>
               lower_bound K objects \<le> a \<and> a \<le> length objects))"
proof -
  from valid have le: "\<forall>x\<in>set objects. unat x \<le> K" by simp
  have "\<exists>l. best_fit_lookup K objects = Inr l \<and>
      lower_bound K objects \<le> l \<and> l \<le> length objects" if "K + 1 < 2 ^ 32"
    using lookup_bounds [OF le that] by (auto intro: lower_bound_le)
  moreover have "\<exists>h. best_fit_heap K objects = Some h \<and>
      lower_bound K objects \<le> h \<and> h \<le> length objects" if "2 * K < 2 ^ 32"
    using heap_results [OF valid that] by (auto intro: lower_bound_le)
  moreover have "\<exists>a p. best_fit K min_size objects = Inr (a, p) \<and>
      lower_bound K objects \<le> a \<and> a \<le> length objects" if "2 * K < 2 ^ 32" "objects \<noteq> []"
    using best_fit_bounds [OF valid that, of min_size] by (auto intro: lower_bound_le)
  ultimately show ?thesis by blast
qed

text \<open>
  C1, as amended. On an instance whose objects are positive, at least \<open>min_size\<close> and at
  most \<open>K\<close>, with \<open>2 * K < 2 ^ 32\<close>, all three heuristics return a result and the number of
  bins of \<^verbatim>\<open>best_fit_lookup\<close> is at most that of \<^verbatim>\<open>best_fit\<close> and at most that of
  \<^verbatim>\<open>best_fit_heap\<close>.
\<close>

theorem lookup_le_others:
  assumes valid: "\<forall>x\<in>set objects. 0 < unat x \<and> min_size \<le> unat x \<and> unat x \<le> K"
    and K: "2 * K < 2 ^ 32"
  shows "\<exists>l a p h. best_fit_lookup K objects = Inr l \<and>
           best_fit K min_size objects = Inr (a, p) \<and>
           best_fit_heap K objects = Some h \<and> l \<le> a \<and> l \<le> h"
proof -
  from valid have v: "\<forall>x\<in>set objects. 0 < unat x \<and> unat x \<le> K" by simp
  from K have tab: "K + 1 < 2 ^ 32" by simp
  from heap_results [OF v K] obtain h l where
    h: "best_fit_heap K objects = Some h" "best_fit_lookup K objects = Inr l" "l \<le> h"
    by blast
  show ?thesis
  proof (cases "objects = []")
    case True
    with h have "l = 0"
      by (auto simp: best_fit_lookup_eq [OF tab] take_lookup_table sum_list_replicate)
    with True h show ?thesis
      by (simp add: best_fit_def bf_init_def)
  next
    case False
    from lookup_eq_best_fit [OF valid K False] obtain a p where
      "best_fit K min_size objects = Inr (a, p)" "best_fit_lookup K objects = Inr a"
      by blast
    with h show ?thesis by simp
  qed
qed

theorem bin_count_bounds_witness:
  "best_fit_lookup 10 [4, 8, 1, 4, 2, 1] = Inr 2 \<and>
   lower_bound 10 [4, 8, 1, 4, 2, 1] \<le> 2 \<and> 2 \<le> length [4 :: u32, 8, 1, 4, 2, 1] \<and>
   best_fit_heap 10 [4, 8, 1, 4, 2, 1] = Some 4 \<and>
   lower_bound 10 [4, 8, 1, 4, 2, 1] \<le> 4 \<and> 4 \<le> length [4 :: u32, 8, 1, 4, 2, 1] \<and>
   best_fit 10 1 [4, 8, 1, 4, 2, 1] = Inr (2, [0, 1, 1, 0, 0, 0])"
proof -
  have valid: "\<forall>x\<in>set [4 :: u32, 8, 1, 4, 2, 1]. 0 < unat x \<and> unat x \<le> 10"
    by simp
  have K: "2 * (10 :: nat) < 2 ^ 32"
    by simp
  have tab: "(10 :: nat) + 1 < 2 ^ 32"
    by simp
  have ne: "[4 :: u32, 8, 1, 4, 2, 1] \<noteq> []"
    by simp
  have l: "best_fit_lookup 10 [4, 8, 1, 4, 2, 1] = Inr 2"
    unfolding best_fit_lookup_eq [OF tab] by code_simp
  have h: "best_fit_heap 10 [4, 8, 1, 4, 2, 1] = Some 4"
    by code_simp
  have a: "best_fit 10 1 [4, 8, 1, 4, 2, 1] = Inr (2, [0, 1, 1, 0, 0, 0])"
    by code_simp
  from bin_count_bounds [OF valid, of 1] K tab ne l h a show ?thesis
    by auto
qed

text \<open>
  The claim as stated fails where the arithmetic in \<^verbatim>\<open>unsigned int\<close> wraps around. With
  \<open>K = 2147483650\<close> the sum \<^verbatim>\<open>bins[j]+objects[i]\<close> wraps and two objects of size
  \<open>2147483649\<close> end up in one bin, below the lower bound 2. With \<open>K = 4294967295\<close> the
  number of entries \<^verbatim>\<open>K+1\<close> wraps to 0 and \<^verbatim>\<open>best_fit_lookup\<close> returns no number of bins
  for two objects of size 1: \<^verbatim>\<open>bin_count[K] = n\<close> is a write outside the table.
\<close>

theorem bin_count_below_lower_bound:
  "best_fit 2147483650 1 [2147483649, 2147483649] = Inr (1, [0, 0]) \<and>
   \<not> lower_bound 2147483650 [2147483649, 2147483649] \<le> 1 \<and>
   best_fit_lookup 4294967295 [1, 1] = Inl OutOfBounds"
  by (simp add: best_fit_def bf_init_def bf_step_def limit_capacity_def lower_bound_def
      best_fit_lookup_def lookup_init_def)

theorem lookup_le_others_witness:
  "best_fit_lookup 10 [4, 8, 1, 4, 2, 1] = Inr 2 \<and>
   best_fit 10 1 [4, 8, 1, 4, 2, 1] = Inr (2, [0, 1, 1, 0, 0, 0]) \<and>
   best_fit_heap 10 [4, 8, 1, 4, 2, 1] = Some 4 \<and> (2 :: nat) \<le> 2 \<and> (2 :: nat) \<le> 4"
proof -
  have valid: "\<forall>x\<in>set [4 :: u32, 8, 1, 4, 2, 1]. 0 < unat x \<and> 1 \<le> unat x \<and> unat x \<le> 10"
    by simp
  have K: "2 * (10 :: nat) < 2 ^ 32"
    by simp
  have tab: "(10 :: nat) + 1 < 2 ^ 32"
    by simp
  have l: "best_fit_lookup 10 [4, 8, 1, 4, 2, 1] = Inr 2"
    unfolding best_fit_lookup_eq [OF tab] by code_simp
  have h: "best_fit_heap 10 [4, 8, 1, 4, 2, 1] = Some 4"
    by code_simp
  have a: "best_fit 10 1 [4, 8, 1, 4, 2, 1] = Inr (2, [0, 1, 1, 0, 0, 0])"
    by code_simp
  from lookup_le_others [OF valid K] l h a show ?thesis
    by auto
qed

text \<open>
  The claim as stated fails in two ways. When \<open>min_size\<close> is above the size of some object,
  \<^verbatim>\<open>best_fit\<close> retires bins that could still take a small object and can end with fewer
  bins than \<^verbatim>\<open>best_fit_lookup\<close>: 7 against 8 for \<open>K = 30\<close>, \<open>min_size = 7\<close> and fifteen
  objects, three of them of size 5. And where \<^verbatim>\<open>bins[j]+objects[i]\<close> wraps around,
  \<^verbatim>\<open>best_fit\<close> overfills a bin: 1 bin against 2 for \<open>K = 2147483650\<close> and two objects
  of size \<open>2147483649\<close>.
\<close>

theorem lookup_above_best_fit:
  "best_fit_lookup 30 [24, 17, 23, 9, 8, 5, 5, 18, 5, 19, 7, 14, 10, 10, 11] = Inr 8 \<and>
   best_fit 30 7 [24, 17, 23, 9, 8, 5, 5, 18, 5, 19, 7, 14, 10, 10, 11] =
     Inr (7, [0, 0, 1, 0, 1, 0, 0, 1, 1, 2, 1, 0, 0, 0, 0]) \<and>
   best_fit_lookup 2147483650 [2147483649, 2147483649] = Inr 2 \<and>
   best_fit 2147483650 1 [2147483649, 2147483649] = Inr (1, [0, 0])"
proof -
  have tab: "(30 :: nat) + 1 < 2 ^ 32"
    by simp
  have 1: "best_fit_lookup 30 [24, 17, 23, 9, 8, 5, 5, 18, 5, 19, 7, 14, 10, 10, 11] = Inr 8"
    unfolding best_fit_lookup_eq [OF tab] by code_simp
  have 2: "best_fit 30 7 [24, 17, 23, 9, 8, 5, 5, 18, 5, 19, 7, 14, 10, 10, 11] =
     Inr (7, [0, 0, 1, 0, 1, 0, 0, 1, 1, 2, 1, 0, 0, 0, 0])"
    by code_simp
  have "\<forall>x\<in>set [2147483649 :: u32, 2147483649]. unat x \<le> 2147483650"
      "(2147483650 :: nat) + 1 < 2 ^ 32"
    by simp_all
  from lookup_bounds [OF this] obtain l where
    l: "best_fit_lookup 2147483650 [2147483649, 2147483649] = Inr l"
      "sum_list (map unat [2147483649 :: u32, 2147483649]) \<le> 2147483650 * l" "l \<le> 2"
    by auto
  from l(2) have "2 \<le> l" by simp
  with l have 3: "best_fit_lookup 2147483650 [2147483649, 2147483649] = Inr 2"
    by simp
  have 4: "best_fit 2147483650 1 [2147483649, 2147483649] = Inr (1, [0, 0])"
    by (simp add: best_fit_def bf_init_def bf_step_def limit_capacity_def)
  from 1 2 3 4 show ?thesis by blast
qed

end
